theory Spec2Isabelle
  imports Main "HOL-Library.Sublist"
begin

section \<open>Python strings\<close>

text \<open>
  A Python 3 \<^verbatim>\<open>str\<close> is a sequence of Unicode code points, and \<^verbatim>\<open>len\<close> counts code
  points. A string is therefore a list of code points (natural numbers); \<open>lit\<close> turns an
  ASCII literal into such a list. Non-ASCII characters of the source are written by their
  code point (\<open>0xC9\<close> is the capital E with acute accent of the third definition starter).
\<close>

type_synonym pychar = nat
type_synonym str = "pychar list"

definition lit :: "string \<Rightarrow> str" where
  "lit s = map of_char s"

text \<open>
  \<^verbatim>\<open>str.isspace\<close> on one character, which is also what \<^verbatim>\<open>str.split()\<close>, \<^verbatim>\<open>str.strip()\<close>
  and the regular expression class \<^verbatim>\<open>\s\<close> use: the ASCII white space 9-13 and 28-32, and
  the Unicode white space beyond ASCII.
\<close>

definition isspace :: "pychar \<Rightarrow> bool" where
  "isspace c \<longleftrightarrow>
     (9 \<le> c \<and> c \<le> 13) \<or> (28 \<le> c \<and> c \<le> 32) \<or> c = 0x85 \<or> c = 0xA0 \<or>
     c = 0x1680 \<or> (0x2000 \<le> c \<and> c \<le> 0x200A) \<or> c = 0x2028 \<or> c = 0x2029 \<or>
     c = 0x202F \<or> c = 0x205F \<or> c = 0x3000"

text \<open>
  The class \<^verbatim>\<open>\d\<close> of a \<^verbatim>\<open>str\<close> pattern is every Unicode decimal digit (category Nd).
  Within ASCII these are exactly 0-9; beyond ASCII the table belongs to the Python run time
  and is the parameter \<open>nd\<close>. No white space character is a decimal digit.
\<close>

definition isdecimal :: "(pychar \<Rightarrow> bool) \<Rightarrow> pychar \<Rightarrow> bool" where
  "isdecimal nd c \<longleftrightarrow> (48 \<le> c \<and> c \<le> 57) \<or> (128 \<le> c \<and> \<not> isspace c \<and> nd c)"

text \<open>
  \<^verbatim>\<open>s.split()\<close> with no argument: skip white space, then take the maximal run of
  characters that are not white space as the next word, until the string ends.
\<close>

function str_split :: "str \<Rightarrow> str list" where
  "str_split s =
     (let t = dropWhile isspace s in
      if t = [] then []
      else takeWhile (\<lambda>c. \<not> isspace c) t # str_split (dropWhile (\<lambda>c. \<not> isspace c) t))"
  by pat_completeness auto
termination
proof (relation "measure length")
  show "wf (measure length)" by simp
next
  fix s t :: str
  assume t: "t = dropWhile isspace s" and ne: "t \<noteq> []"
  from ne obtain c cs where tc: "t = c # cs" by (cases t) auto
  have "\<not> isspace (hd t)" using ne unfolding t by (rule hd_dropWhile)
  then have "\<not> isspace c" by (simp add: tc)
  then have "dropWhile (\<lambda>c. \<not> isspace c) t = dropWhile (\<lambda>c. \<not> isspace c) cs"
    by (simp add: tc)
  then have "length (dropWhile (\<lambda>c. \<not> isspace c) t) \<le> length cs"
    by (simp add: length_dropWhile_le)
  moreover have "length t \<le> length s" by (simp add: t length_dropWhile_le)
  ultimately show "(dropWhile (\<lambda>c. \<not> isspace c) t, s) \<in> measure length"
    by (simp add: tc)
qed

declare str_split.simps [simp del]

text \<open>\<^verbatim>\<open>text.split("\n")\<close>: split at every occurrence of a one-character separator.\<close>

fun split_sep :: "pychar \<Rightarrow> str \<Rightarrow> str list" where
  "split_sep c [] = [] # []"
| "split_sep c (x # xs) =
     (if x = c then [] # split_sep c xs
      else (case split_sep c xs of [] \<Rightarrow> [x] # [] | w # ws \<Rightarrow> (x # w) # ws))"

text \<open>\<^verbatim>\<open>s.strip()\<close>: drop the white space at both ends.\<close>

definition strip :: "str \<Rightarrow> str" where
  "strip s = rev (dropWhile isspace (rev (dropWhile isspace s)))"

text \<open>\<^verbatim>\<open>s.startswith(p)\<close>, and \<^verbatim>\<open>s.startswith(t)\<close> for a tuple \<open>t\<close> of prefixes.\<close>

definition startswith :: "str \<Rightarrow> str \<Rightarrow> bool" where
  "startswith s p \<longleftrightarrow> take (length p) s = p"

definition startswith_any :: "str \<Rightarrow> str list \<Rightarrow> bool" where
  "startswith_any s ps \<longleftrightarrow> list_ex (startswith s) ps"

text \<open>\<^verbatim>\<open>sep.join(words)\<close>.\<close>

fun join :: "str \<Rightarrow> str list \<Rightarrow> str" where
  "join sep [] = []"
| "join sep [w] = w"
| "join sep (w # v # ws) = w @ sep @ join sep (v # ws)"

text \<open>
  \<^verbatim>\<open>s.replace(old, new, 1)\<close>: the leftmost occurrence of \<open>old\<close> is replaced, and a string
  without an occurrence is returned as it is. (An empty \<open>old\<close> occurs at position 0.)
\<close>

fun replace1 :: "str \<Rightarrow> str \<Rightarrow> str \<Rightarrow> str" where
  "replace1 old new [] = (if old = [] then new else [])"
| "replace1 old new (c # cs) =
     (if startswith (c # cs) old then new @ drop (length old) (c # cs)
      else c # replace1 old new cs)"

text \<open>
  \<^verbatim>\<open>max(words, key=len)\<close> on a sequence with first item \<open>m\<close>: the running maximum is
  replaced only by an item whose key is strictly greater.
\<close>

fun max_len :: "str \<Rightarrow> str list \<Rightarrow> str" where
  "max_len m [] = m"
| "max_len m (w # ws) = max_len (if length m < length w then w else m) ws"

text \<open>\<^verbatim>\<open>str(n)\<close> for a length: the decimal digits.\<close>

function str_of_nat :: "nat \<Rightarrow> str" where
  "str_of_nat n = (if n < 10 then [48 + n] else str_of_nat (n div 10) @ [48 + n mod 10])"
  by pat_completeness auto
termination
  by (relation "measure id") auto

declare str_of_nat.simps [simp del]

section \<open>Card generation\<close>

definition DEFINITION_STARTERS :: "str list" where
  "DEFINITION_STARTERS =
     [lit ''Es denomina'', [0xC9, 0x73], lit ''Es produeix'', lit ''La'', lit ''El'',
      lit ''Els'', lit ''Les'']"

definition is_definition :: "str \<Rightarrow> bool" where
  "is_definition sentence \<longleftrightarrow>
     startswith_any sentence DEFINITION_STARTERS \<and> length (str_split sentence) > 8"

definition generate_basic_card :: "str \<Rightarrow> str \<times> str" where
  "generate_basic_card sentence =
     (let words = str_split sentence;
          key = join (lit '' '') (take 5 words) @ lit ''...'';
          front = lit ''Defineix: '' @ key;
          back = sentence
      in (front, back))"

text \<open>
  \<open>generate_cloze\<close> returns \<open>None\<close> where the source returns \<^verbatim>\<open>None\<close>. \<^verbatim>\<open>max\<close> is only
  reached with ten words or more, so its failure on an empty sequence cannot happen; the
  empty case below is that unreachable branch.
\<close>

definition generate_cloze :: "str \<Rightarrow> str option" where
  "generate_cloze sentence =
     (let words = str_split sentence in
      if length words < 10 then None
      else (case words of
              [] \<Rightarrow> None
            | w # ws \<Rightarrow>
                (let key_word = max_len w ws in
                 if length key_word < 6 then None
                 else Some (replace1 key_word (lit ''{{c1::'' @ key_word @ lit ''}}'') sentence))))"

record card =
  card_type :: str
  card_front :: str
  card_back :: str
  card_section :: str
  card_approved :: str

text \<open>
  The loop of \<open>generate_cards\<close>, with the list \<open>cards\<close> it appends to. \<^verbatim>\<open>if cloze:\<close> is
  the truth value of an optional string: false for \<^verbatim>\<open>None\<close> and for the empty string.
\<close>

fun generate_loop :: "card list \<Rightarrow> (str \<times> str) list \<Rightarrow> card list" where
  "generate_loop cards [] = cards"
| "generate_loop cards ((sec, sentence) # rest) =
     (let cards1 =
            (if is_definition sentence then
               (case generate_basic_card sentence of
                  (front, back) \<Rightarrow>
                    cards @ [\<lparr>card_type = lit ''basic'', card_front = front, card_back = back,
                              card_section = sec, card_approved = lit ''no''\<rparr>])
             else cards);
          cloze = generate_cloze sentence;
          cards2 =
            (case cloze of
               None \<Rightarrow> cards1
             | Some c \<Rightarrow>
                 if c \<noteq> [] then
                   cards1 @ [\<lparr>card_type = lit ''cloze'', card_front = c, card_back = [],
                              card_section = sec, card_approved = lit ''no''\<rparr>]
                 else cards1)
      in generate_loop cards2 rest)"

definition generate_cards :: "(str \<times> str) list \<Rightarrow> card list" where
  "generate_cards sectioned_text = generate_loop [] sectioned_text"

section \<open>The heading pattern\<close>

text \<open>
  The fragment of Python's regular expressions that \<^verbatim>\<open>SECTION_REGEX\<close> uses, with the
  backtracking semantics of \<^verbatim>\<open>re\<close>: a matcher state is the position, the input that is
  left and the groups captured so far, and matching an expression from a state gives the
  list of states it can end in, in the order in which backtracking tries them. A greedy
  repetition tries one more iteration before it tries to stop.
\<close>

datatype regex =
    Bol
  | Class "pychar \<Rightarrow> bool"
  | Seq regex regex
  | Star regex
  | Group nat regex

type_synonym groups = "nat \<Rightarrow> str option"
type_synonym mstate = "nat \<times> str \<times> groups"

definition Plus :: "regex \<Rightarrow> regex" where
  "Plus r = Seq r (Star r)"

definition Chr :: "pychar \<Rightarrow> regex" where
  "Chr c = Class (\<lambda>x. x = c)"

fun step :: "(pychar \<Rightarrow> bool) \<Rightarrow> mstate \<Rightarrow> mstate list" where
  "step P (i, [], g) = []"
| "step P (i, c # cs, g) = (if P c then [(Suc i, cs, g)] else [])"

text \<open>
  \<open>star f n st\<close>: greedy repetition of the matcher \<open>f\<close> from \<open>st\<close>, at most \<open>n\<close> times.
  An iteration is repeated only where it has consumed input, so the length of the input
  that is left bounds the number of iterations.
\<close>

fun star :: "(mstate \<Rightarrow> mstate list) \<Rightarrow> nat \<Rightarrow> mstate \<Rightarrow> mstate list" where
  "star f 0 st = [st]"
| "star f (Suc n) st =
     concat (map (\<lambda>st'. if fst st < fst st' then star f n st' else []) (f st)) @ [st]"

primrec ms :: "regex \<Rightarrow> mstate \<Rightarrow> mstate list" where
  "ms Bol = (\<lambda>(i, s, g). if i = 0 then [(i, s, g)] else [])"
| "ms (Class P) = step P"
| "ms (Seq r1 r2) = (\<lambda>st. concat (map (ms r2) (ms r1 st)))"
| "ms (Star r) = (\<lambda>(i, s, g). star (ms r) (length s) (i, s, g))"
| "ms (Group k r) =
     (\<lambda>(i, s, g). map (\<lambda>(j, s', g'). (j, s', g'(k \<mapsto> take (j - i) s))) (ms r (i, s, g)))"

text \<open>
  \<^verbatim>\<open>pattern.match(s)\<close>: the first way to match at position 0, if there is one; the result
  is the groups of the match object.
\<close>

definition re_match :: "regex \<Rightarrow> str \<Rightarrow> groups option" where
  "re_match r s = (case ms r (0, s, Map.empty) of [] \<Rightarrow> None | (j, s', g) # _ \<Rightarrow> Some g)"

text \<open>A group in an f-string: a group that did not take part is formatted as \<^verbatim>\<open>None\<close>.\<close>

definition match_group :: "groups \<Rightarrow> nat \<Rightarrow> str" where
  "match_group g k = (case g k of None \<Rightarrow> lit ''None'' | Some t \<Rightarrow> t)"

text \<open>\<^verbatim>\<open>^(\d+(\.\d+)*)\.\s*(.+)\<close>; the dot matches every character but the line feed.\<close>

definition SECTION_REGEX :: "(pychar \<Rightarrow> bool) \<Rightarrow> regex" where
  "SECTION_REGEX nd =
     Seq Bol
      (Seq (Group 1 (Seq (Plus (Class (isdecimal nd)))
                         (Star (Group 2 (Seq (Chr 46) (Plus (Class (isdecimal nd))))))))
        (Seq (Chr 46)
          (Seq (Star (Class isspace))
               (Group 3 (Plus (Class (\<lambda>c. c \<noteq> 10)))))))"

section \<open>Sections\<close>

text \<open>The loop of \<open>detect_sections\<close>, with its two variables.\<close>

fun detect_loop ::
  "(pychar \<Rightarrow> bool) \<Rightarrow> str \<Rightarrow> (str \<times> str) list \<Rightarrow> str list \<Rightarrow> (str \<times> str) list" where
  "detect_loop nd current_section result [] = result"
| "detect_loop nd current_section result (p # ps) =
     (case re_match (SECTION_REGEX nd) p of
        Some m \<Rightarrow> detect_loop nd (match_group m 1 @ lit '' '' @ match_group m 3) result ps
      | None \<Rightarrow> detect_loop nd current_section (result @ [(current_section, p)]) ps)"

definition detect_sections :: "(pychar \<Rightarrow> bool) \<Rightarrow> str list \<Rightarrow> (str \<times> str) list" where
  "detect_sections nd paragraphs = detect_loop nd (lit ''General'') [] paragraphs"

section \<open>Extraction, writing and the entry point\<close>

text \<open>
  The exceptions that end a run. \<open>LibraryError\<close> stands for an exception raised inside
  one of the document libraries, \<open>UnicodeEncodeError\<close> and \<open>UnicodeDecodeError\<close> are
  raised by the UTF-8 codec of a text file, and \<open>CsvError\<close> by the parser of the
  \<^verbatim>\<open>csv\<close> module.
\<close>

datatype error =
    SystemExit nat
  | FileNotFoundError str
  | ValueError str
  | LibraryError str
  | UnicodeEncodeError
  | UnicodeDecodeError
  | CsvError

text \<open>
  What a run takes from outside the source: the Unicode tables of the run time
  (\<open>unicode_decimal\<close>, \<open>str_lower\<close>), \<^verbatim>\<open>pathlib\<close> (\<open>path_suffix\<close>, \<open>path_exists\<close>), and the
  two document libraries, which give the text of each page of a PDF (\<^verbatim>\<open>None\<close> or empty
  for a page without text) and the text of each paragraph of a DOCX.
\<close>

record env =
  unicode_decimal :: "pychar \<Rightarrow> bool"
  str_lower :: "str \<Rightarrow> str"
  path_suffix :: "str \<Rightarrow> str"
  path_exists :: "str \<Rightarrow> bool"
  pdf_pages :: "str \<Rightarrow> error + str option list"
  docx_paragraphs :: "str \<Rightarrow> error + str list"

text \<open>The lines of one page: \<^verbatim>\<open>if not text: continue\<close> skips \<^verbatim>\<open>None\<close> and the empty text.\<close>

definition page_lines :: "str option \<Rightarrow> str list" where
  "page_lines text =
     (case text of
        None \<Rightarrow> []
      | Some t \<Rightarrow> if t = [] then [] else filter (\<lambda>l. l \<noteq> []) (map strip (split_sep 10 t)))"

definition extract_pdf :: "env \<Rightarrow> str \<Rightarrow> error + str list" where
  "extract_pdf e path =
     (case pdf_pages e path of
        Inl err \<Rightarrow> Inl err
      | Inr pages \<Rightarrow> Inr (concat (map page_lines pages)))"

definition extract_docx :: "env \<Rightarrow> str \<Rightarrow> error + str list" where
  "extract_docx e path =
     (case docx_paragraphs e path of
        Inl err \<Rightarrow> Inl err
      | Inr ps \<Rightarrow> Inr (map strip (filter (\<lambda>t. strip t \<noteq> []) ps)))"

definition extract_text :: "env \<Rightarrow> str \<Rightarrow> error + str list" where
  "extract_text e path =
     (if str_lower e (path_suffix e path) = lit ''.pdf'' then extract_pdf e path
      else if str_lower e (path_suffix e path) = lit ''.docx'' then extract_docx e path
      else Inl (ValueError (lit ''Format no suportat. Usa PDF o DOCX.'')))"

text \<open>
  What a run can change: the output directory, the output file and the standard output.
  The output file is held as its bytes.
\<close>

type_synonym byte = nat

record world =
  output_dir :: bool
  output_file :: "byte list option"
  stdout :: "str list"

definition OUTPUT_FILE :: str where
  "OUTPUT_FILE = lit ''output/suggested_cards.csv''"

text \<open>
  The file is opened with \<^verbatim>\<open>encoding="utf-8"\<close>: what is written to it is encoded in UTF-8
  with the default error handler, which refuses the surrogate code points U+D800 to
  U+DFFF. (A Python string has no code point above U+10FFFF.)
\<close>

definition utf8_char :: "pychar \<Rightarrow> byte list option" where
  "utf8_char c =
     (if c < 0x80 then Some [c]
      else if c < 0x800 then Some [0xC0 + c div 64, 0x80 + c mod 64]
      else if c < 0x10000 then
        (if 0xD800 \<le> c \<and> c \<le> 0xDFFF then None
         else Some [0xE0 + c div 4096, 0x80 + c div 64 mod 64, 0x80 + c mod 64])
      else if c < 0x110000 then
        Some [0xF0 + c div 262144, 0x80 + c div 4096 mod 64, 0x80 + c div 64 mod 64,
              0x80 + c mod 64]
      else None)"

fun utf8_encode :: "str \<Rightarrow> byte list option" where
  "utf8_encode [] = Some []"
| "utf8_encode (c # cs) =
     (case utf8_char c of
        None \<Rightarrow> None
      | Some bs \<Rightarrow> (case utf8_encode cs of None \<Rightarrow> None | Some rest \<Rightarrow> Some (bs @ rest)))"

text \<open>
  \<^verbatim>\<open>csv.DictWriter\<close> with its default dialect (\<^verbatim>\<open>excel\<close>): the delimiter is the comma
  (44), the quote character the double quote (34), the line terminator carriage return and
  line feed (13, 10), and quoting is minimal: a field is put in quotes when it holds the
  delimiter, the quote character or a character of the line terminator, and a quote
  character inside it is doubled. A record that would be empty, that of a single empty
  field, is written as two quote characters.
\<close>

definition needs_quotes :: "str \<Rightarrow> bool" where
  "needs_quotes f \<longleftrightarrow> list_ex (\<lambda>c. c = 44 \<or> c = 34 \<or> c = 13 \<or> c = 10) f"

fun double_quotes :: "str \<Rightarrow> str" where
  "double_quotes [] = []"
| "double_quotes (c # cs) = (if c = 34 then 34 # 34 # double_quotes cs else c # double_quotes cs)"

definition csv_field :: "str \<Rightarrow> str" where
  "csv_field f = (if needs_quotes f then 34 # double_quotes f @ [34] else f)"

definition csv_line :: "str list \<Rightarrow> str" where
  "csv_line row =
     (let rec = join [44] (map csv_field row)
      in (if row \<noteq> [] \<and> rec = [] then [34, 34] else rec) @ [13, 10])"

text \<open>
  \<open>writeheader\<close> writes the row of the field names, and \<open>writerows\<close> the values of
  each card in the order of the field names; a card has exactly these five keys. Each row
  is one \<^verbatim>\<open>write\<close> to the file, which encodes it; when a row cannot be encoded the
  exception leaves the \<^verbatim>\<open>with\<close> block, which closes the file with the rows written
  before.
\<close>

definition fieldnames :: "str list" where
  "fieldnames = [lit ''type'', lit ''front'', lit ''back'', lit ''section'', lit ''approved'']"

definition card_row :: "card \<Rightarrow> str list" where
  "card_row c = [card_type c, card_front c, card_back c, card_section c, card_approved c]"

fun write_rows :: "byte list \<Rightarrow> str list list \<Rightarrow> (error + unit) \<times> byte list" where
  "write_rows out [] = (Inr (), out)"
| "write_rows out (row # rows) =
     (case utf8_encode (csv_line row) of
        None \<Rightarrow> (Inl UnicodeEncodeError, out)
      | Some bs \<Rightarrow> write_rows (out @ bs) rows)"

definition write_csv :: "card list \<Rightarrow> world \<Rightarrow> (error + unit) \<times> world" where
  "write_csv cards w =
     (case write_rows [] (fieldnames # map card_row cards) of
        (res, out) \<Rightarrow> (res, w\<lparr>output_file := Some out\<rparr>))"

text \<open>The statements of the module that run before \<open>main\<close>: the output directory is made.\<close>

definition module_init :: "world \<Rightarrow> world" where
  "module_init w = w\<lparr>output_dir := True\<rparr>"

definition print :: "str \<Rightarrow> world \<Rightarrow> world" where
  "print line w = w\<lparr>stdout := stdout w @ [line]\<rparr>"

text \<open>\<open>argv\<close> is \<^verbatim>\<open>sys.argv\<close>: the name of the script, then the arguments.\<close>

definition main :: "env \<Rightarrow> str list \<Rightarrow> world \<Rightarrow> (error + unit) \<times> world" where
  "main e argv w =
     (if length argv \<noteq> 2 then
        (Inl (SystemExit 1),
         print ([0xDA] @ lit ''s: python generate_cards.py <document.pdf|document.docx>'') w)
      else
        (let path = argv ! 1 in
         if \<not> path_exists e path then (Inl (FileNotFoundError path), w)
         else
           (case extract_text e path of
              Inl err \<Rightarrow> (Inl err, w)
            | Inr paragraphs \<Rightarrow>
                (let sectioned = detect_sections (unicode_decimal e) paragraphs;
                     cards = generate_cards sectioned
                 in (case write_csv cards w of
                       (Inl err, w') \<Rightarrow> (Inl err, w')
                     | (Inr u, w') \<Rightarrow>
                         (Inr (),
                          print ([0x2714] @ lit '' '' @ str_of_nat (length cards) @
                                 lit '' cartes suggerides creades a '' @ OUTPUT_FILE) w'))))))"

definition run :: "env \<Rightarrow> str list \<Rightarrow> world \<Rightarrow> (error + unit) \<times> world" where
  "run e argv w = main e argv (module_init w)"

section \<open>Reading the output file back\<close>

text \<open>
  The repository has no reader. Reading the file back is taken as the \<^verbatim>\<open>csv\<close> module's
  documented use, \<^verbatim>\<open>csv.reader(open(path, newline="", encoding="utf-8"))\<close>, and these
  definitions follow the library, not the repository: the strict UTF-8 decoder, the lines
  of a text file opened with \<^verbatim>\<open>newline=""\<close>, and the parser of the \<^verbatim>\<open>excel\<close> dialect.
\<close>

definition cont :: "byte \<Rightarrow> bool" where
  "cont b \<longleftrightarrow> 0x80 \<le> b \<and> b \<le> 0xBF"

text \<open>
  The decoder accepts the shortest encoding of a code point only, and neither a surrogate
  nor a value above U+10FFFF.
\<close>

fun utf8_decode :: "byte list \<Rightarrow> str option" where
  "utf8_decode [] = Some []"
| "utf8_decode (b # bs) =
     (if b < 0x80 then map_option ((#) b) (utf8_decode bs)
      else if 0xC2 \<le> b \<and> b \<le> 0xDF then
        (case bs of
           b1 # r \<Rightarrow>
             if cont b1 then
               map_option ((#) ((b - 0xC0) * 64 + (b1 - 0x80))) (utf8_decode r)
             else None
         | _ \<Rightarrow> None)
      else if 0xE0 \<le> b \<and> b \<le> 0xEF then
        (case bs of
           b1 # b2 # r \<Rightarrow>
             if cont b1 \<and> cont b2 \<and> (b = 0xE0 \<longrightarrow> 0xA0 \<le> b1) \<and> (b = 0xED \<longrightarrow> b1 \<le> 0x9F) then
               map_option ((#) ((b - 0xE0) * 4096 + (b1 - 0x80) * 64 + (b2 - 0x80)))
                 (utf8_decode r)
             else None
         | _ \<Rightarrow> None)
      else if 0xF0 \<le> b \<and> b \<le> 0xF4 then
        (case bs of
           b1 # b2 # b3 # r \<Rightarrow>
             if cont b1 \<and> cont b2 \<and> cont b3 \<and> (b = 0xF0 \<longrightarrow> 0x90 \<le> b1) \<and>
                (b = 0xF4 \<longrightarrow> b1 \<le> 0x8F) then
               map_option
                 ((#) ((b - 0xF0) * 262144 + (b1 - 0x80) * 4096 + (b2 - 0x80) * 64 + (b3 - 0x80)))
                 (utf8_decode r)
             else None
         | _ \<Rightarrow> None)
      else None)"

text \<open>
  The parser of \<^verbatim>\<open>csv.reader\<close>: its state, the field it is reading and the fields of the
  record read so far (as in Python 3.11 and later, where every character is data). The
  dialect has no escape character, so the states for one are left out. A field may hold
  at most \<^verbatim>\<open>csv.field_size_limit()\<close> characters, 131072 unless the
  reading program sets it.
\<close>

datatype parser_state =
    START_RECORD
  | START_FIELD
  | IN_FIELD
  | IN_QUOTED_FIELD
  | QUOTE_IN_QUOTED_FIELD
  | EAT_CRNL

record parser =
  p_state :: parser_state
  p_field :: str
  p_fields :: "str list"

definition field_limit :: nat where
  "field_limit = 131072"

definition parse_reset :: parser where
  "parse_reset = \<lparr>p_state = START_RECORD, p_field = [], p_fields = []\<rparr>"

definition parse_save_field :: "parser \<Rightarrow> parser" where
  "parse_save_field p = p\<lparr>p_fields := p_fields p @ [p_field p], p_field := []\<rparr>"

definition parse_add_char :: "parser \<Rightarrow> pychar \<Rightarrow> error + parser" where
  "parse_add_char p c =
     (if field_limit \<le> length (p_field p) then Inl CsvError
      else Inr (p\<lparr>p_field := p_field p @ [c]\<rparr>))"

definition add_then :: "parser \<Rightarrow> pychar \<Rightarrow> parser_state \<Rightarrow> error + parser" where
  "add_then p c st =
     (case parse_add_char p c of Inl err \<Rightarrow> Inl err | Inr p' \<Rightarrow> Inr (p'\<lparr>p_state := st\<rparr>))"

text \<open>
  One step of the parser, on a character or, for \<open>None\<close>, on the end of a line. In the
  state \<open>START_RECORD\<close> a character that is not a line end is handled as in
  \<open>START_FIELD\<close>.
\<close>

definition start_field :: "parser \<Rightarrow> pychar option \<Rightarrow> error + parser" where
  "start_field p t =
     (case t of
        None \<Rightarrow> Inr ((parse_save_field p)\<lparr>p_state := START_RECORD\<rparr>)
      | Some c \<Rightarrow>
          if c = 10 \<or> c = 13 then Inr ((parse_save_field p)\<lparr>p_state := EAT_CRNL\<rparr>)
          else if c = 34 then Inr (p\<lparr>p_state := IN_QUOTED_FIELD\<rparr>)
          else if c = 44 then Inr ((parse_save_field p)\<lparr>p_state := START_FIELD\<rparr>)
          else add_then p c IN_FIELD)"

definition process_char :: "parser \<Rightarrow> pychar option \<Rightarrow> error + parser" where
  "process_char p t =
     (case p_state p of
        START_RECORD \<Rightarrow>
          (case t of
             None \<Rightarrow> Inr p
           | Some c \<Rightarrow>
               if c = 10 \<or> c = 13 then Inr (p\<lparr>p_state := EAT_CRNL\<rparr>)
               else start_field p t)
      | START_FIELD \<Rightarrow> start_field p t
      | IN_FIELD \<Rightarrow>
          (case t of
             None \<Rightarrow> Inr ((parse_save_field p)\<lparr>p_state := START_RECORD\<rparr>)
           | Some c \<Rightarrow>
               if c = 10 \<or> c = 13 then Inr ((parse_save_field p)\<lparr>p_state := EAT_CRNL\<rparr>)
               else if c = 44 then Inr ((parse_save_field p)\<lparr>p_state := START_FIELD\<rparr>)
               else parse_add_char p c)
      | IN_QUOTED_FIELD \<Rightarrow>
          (case t of
             None \<Rightarrow> Inr p
           | Some c \<Rightarrow>
               if c = 34 then Inr (p\<lparr>p_state := QUOTE_IN_QUOTED_FIELD\<rparr>)
               else parse_add_char p c)
      | QUOTE_IN_QUOTED_FIELD \<Rightarrow>
          (case t of
             None \<Rightarrow> Inr ((parse_save_field p)\<lparr>p_state := START_RECORD\<rparr>)
           | Some c \<Rightarrow>
               if c = 34 then add_then p c IN_QUOTED_FIELD
               else if c = 44 then Inr ((parse_save_field p)\<lparr>p_state := START_FIELD\<rparr>)
               else if c = 10 \<or> c = 13 then Inr ((parse_save_field p)\<lparr>p_state := EAT_CRNL\<rparr>)
               else add_then p c IN_FIELD)
      | EAT_CRNL \<Rightarrow>
          (case t of
             None \<Rightarrow> Inr (p\<lparr>p_state := START_RECORD\<rparr>)
           | Some c \<Rightarrow> if c = 10 \<or> c = 13 then Inr p else Inl CsvError))"

text \<open>
  A text file opened with \<^verbatim>\<open>newline=""\<close> gives its lines with their ends, a line ending
  at a line feed, at a carriage return with its line feed, at a lone carriage return, or
  with the text. \<open>line_end c cs\<close>: the character \<open>c\<close>, followed by \<open>cs\<close>, is the last
  of its line.
\<close>

definition line_end :: "pychar \<Rightarrow> str \<Rightarrow> bool" where
  "line_end c cs \<longleftrightarrow> cs = [] \<or> c = 10 \<or> (c = 13 \<and> hd cs \<noteq> 10)"

text \<open>
  The reader feeds the parser the characters of a line and then the end of the line; when
  that leaves the parser in \<open>START_RECORD\<close> the record is complete, and the parser is
  reset for the next one. When the lines run out inside a quoted field, the record read so
  far is given with that field.
\<close>

fun reader_loop :: "parser \<Rightarrow> str \<Rightarrow> error + str list list" where
  "reader_loop p [] =
     (if p_state p = IN_QUOTED_FIELD then Inr ((p_fields p @ [p_field p]) # []) else Inr [])"
| "reader_loop p (c # cs) =
     (case process_char p (Some c) of
        Inl err \<Rightarrow> Inl err
      | Inr p1 \<Rightarrow>
          if line_end c cs then
            (case process_char p1 None of
               Inl err \<Rightarrow> Inl err
             | Inr p2 \<Rightarrow>
                 if p_state p2 = START_RECORD then
                   (case reader_loop parse_reset cs of
                      Inl err \<Rightarrow> Inl err
                    | Inr rows \<Rightarrow> Inr (p_fields p2 # rows))
                 else reader_loop p2 cs)
          else reader_loop p1 cs)"

definition read_csv :: "byte list \<Rightarrow> error + str list list" where
  "read_csv bytes =
     (case utf8_decode bytes of
        None \<Rightarrow> Inl UnicodeDecodeError
      | Some text \<Rightarrow> reader_loop parse_reset text)"

text \<open>Reading the output file of a world; a file that is not there cannot be opened.\<close>

definition read_output :: "world \<Rightarrow> error + str list list" where
  "read_output w =
     (case output_file w of
        None \<Rightarrow> Inl (FileNotFoundError OUTPUT_FILE)
      | Some bytes \<Rightarrow> read_csv bytes)"

section \<open>Notions of the specification\<close>

text \<open>
  The longest word of a sentence, first in word order among the words of maximal length:
  the first word that no word of the sentence is longer than.
\<close>

definition longest_word :: "str list \<Rightarrow> str" where
  "longest_word ws = hd (filter (\<lambda>w. \<forall>v \<in> set ws. length v \<le> length w) ws)"

text \<open>
  \<open>r\<close> is \<open>s\<close> with the first occurrence of \<open>old\<close> replaced by \<open>new\<close> and nothing else
  altered: \<open>s\<close> splits around an occurrence of \<open>old\<close> before which no other occurrence
  starts, and \<open>r\<close> has \<open>new\<close> between the same two parts.
\<close>

definition replaces_first :: "str \<Rightarrow> str \<Rightarrow> str \<Rightarrow> str \<Rightarrow> bool" where
  "replaces_first s old new r \<longleftrightarrow>
     (\<exists>pre post. s = pre @ old @ post \<and> r = pre @ new @ post \<and>
        (\<forall>p q. s = p @ old @ q \<longrightarrow> length pre \<le> length p))"

text \<open>
  A paragraph is a heading when the heading pattern matches it; its label is what the
  sectioner then makes the current section. The label that governs position \<open>i\<close> of a
  paragraph sequence is the label of the last heading before \<open>i\<close>, and \<^verbatim>\<open>General\<close> when
  no heading comes before.
\<close>

definition is_heading :: "(pychar \<Rightarrow> bool) \<Rightarrow> str \<Rightarrow> bool" where
  "is_heading nd p \<longleftrightarrow> re_match (SECTION_REGEX nd) p \<noteq> None"

definition heading_label :: "(pychar \<Rightarrow> bool) \<Rightarrow> str \<Rightarrow> str" where
  "heading_label nd p =
     (case re_match (SECTION_REGEX nd) p of
        None \<Rightarrow> []
      | Some m \<Rightarrow> match_group m 1 @ lit '' '' @ match_group m 3)"

definition governing_label :: "(pychar \<Rightarrow> bool) \<Rightarrow> str list \<Rightarrow> nat \<Rightarrow> str" where
  "governing_label nd ps i =
     (case rev (filter (is_heading nd) (take i ps)) of
        [] \<Rightarrow> lit ''General''
      | h # _ \<Rightarrow> heading_label nd h)"

text \<open>
  The text after the period of a numbering goes on with the numbering when it starts with
  a number that is itself followed by a period and at least one more character.
\<close>

definition continues_numbering :: "(pychar \<Rightarrow> bool) \<Rightarrow> str \<Rightarrow> bool" where
  "continues_numbering nd t \<longleftrightarrow>
     takeWhile (isdecimal nd) t \<noteq> [] \<and>
     (case dropWhile (isdecimal nd) t of c # c' # cs \<Rightarrow> c = 46 | _ \<Rightarrow> False)"

text \<open>
  The code points that UTF-8 can encode: the Unicode scalar values, that is every code
  point up to U+10FFFF but the surrogates U+D800 to U+DFFF.
\<close>

definition encodable :: "pychar \<Rightarrow> bool" where
  "encodable c \<longleftrightarrow> c < 0xD800 \<or> (0xDFFF < c \<and> c \<le> 0x10FFFF)"

section \<open>Auxiliary definitions\<close>

text \<open>
  The cards that one pair adds, by heuristic.
\<close>

definition basic_cards :: "str \<Rightarrow> str \<Rightarrow> card list" where
  "basic_cards sec s =
     (if is_definition s then
        [\<lparr>card_type = lit ''basic'', card_front = fst (generate_basic_card s),
          card_back = snd (generate_basic_card s), card_section = sec,
          card_approved = lit ''no''\<rparr>]
      else [])"

definition cloze_cards :: "str \<Rightarrow> str \<Rightarrow> card list" where
  "cloze_cards sec s =
     (case generate_cloze s of
        None \<Rightarrow> []
      | Some c \<Rightarrow>
          if c \<noteq> [] then
            [\<lparr>card_type = lit ''cloze'', card_front = c, card_back = [], card_section = sec,
              card_approved = lit ''no''\<rparr>]
          else [])"

text \<open>
  The state in which backtracking first leaves an expression, the repeated group
  \<^verbatim>\<open>(\.\d+)\<close> of the heading pattern, the text \<^verbatim>\<open>.d1.d2...\<close> it runs over, and the current
  section once the loop of the sectioner has gone through some paragraphs.
\<close>

definition first_result :: "regex \<Rightarrow> mstate \<Rightarrow> mstate \<Rightarrow> bool" where
  "first_result r st x \<longleftrightarrow> (\<exists>xs. ms r st = x # xs)"

definition numbering_tail :: "(pychar \<Rightarrow> bool) \<Rightarrow> regex" where
  "numbering_tail nd = Group 2 (Seq (Chr 46) (Plus (Class (isdecimal nd))))"

fun dotted :: "str list \<Rightarrow> str" where
  "dotted [] = []"
| "dotted (d # ds) = 46 # d @ dotted ds"

definition section_after :: "(pychar \<Rightarrow> bool) \<Rightarrow> str \<Rightarrow> str list \<Rightarrow> str" where
  "section_after nd cur ps =
     (case rev (filter (is_heading nd) ps) of [] \<Rightarrow> cur | h # _ \<Rightarrow> heading_label nd h)"

text \<open>
  The part of the heading pattern after group 1, and the inputs on which it cannot match:
  the empty one, one that does not start with a period, and a lone period.
\<close>

definition heading_tail :: regex where
  "heading_tail =
     Seq (Chr 46) (Seq (Star (Class isspace)) (Group 3 (Plus (Class (\<lambda>c. c \<noteq> 10)))))"

definition dead :: "str \<Rightarrow> bool" where
  "dead s \<longleftrightarrow> s = [] \<or> hd s \<noteq> 46 \<or> s = [46]"

text \<open>
  The parser once it has read the written form of a field \<open>f\<close>, having started the field
  in the state \<open>s0\<close> with the fields \<open>fs\<close> read before.
\<close>

definition done_state :: "parser_state \<Rightarrow> str \<Rightarrow> str list \<Rightarrow> parser" where
  "done_state s0 f fs =
     (if needs_quotes f then \<lparr>p_state = QUOTE_IN_QUOTED_FIELD, p_field = f, p_fields = fs\<rparr>
      else if f = [] then \<lparr>p_state = s0, p_field = [], p_fields = fs\<rparr>
      else \<lparr>p_state = IN_FIELD, p_field = f, p_fields = fs\<rparr>)"

section \<open>Example inputs\<close>

text \<open>
  The sentence of the specification's definition example (fourteen words, the longest
  being \<^verbatim>\<open>converteixen\<close>), and an environment in which one file exists, named
  \<^verbatim>\<open>apunts.TXT\<close>; its suffix function follows \<^verbatim>\<open>pathlib\<close> (the last dot of the last
  path component, unless that dot is its first or last character).
\<close>

definition example_sentence :: str where
  "example_sentence =
     lit ''La fotos'' @ [0xED] @ lit ''ntesi '' @ [0xE9] @ lit ''s el proc'' @ [0xE9] @
     lit ''s pel qual les plantes converteixen llum en energia qu'' @ [0xED] @ lit ''mica.''"

definition example_suffix :: "str \<Rightarrow> str" where
  "example_suffix path =
     (let name = rev (takeWhile (\<lambda>c. c \<noteq> 47) (rev path));
          ext = rev (takeWhile (\<lambda>c. c \<noteq> 46) (rev name))
      in if ext \<noteq> [] \<and> length ext + 1 < length name then 46 # ext else [])"

definition example_env :: env where
  "example_env =
     \<lparr>unicode_decimal = (\<lambda>c. False),
      str_lower = map (\<lambda>c. if 65 \<le> c \<and> c \<le> 90 then c + 32 else c),
      path_suffix = example_suffix,
      path_exists = (\<lambda>path. path = lit ''apunts.TXT''),
      pdf_pages = (\<lambda>path. Inr []),
      docx_paragraphs = (\<lambda>path. Inr [])\<rparr>"

definition empty_world :: world where
  "empty_world = \<lparr>output_dir = False, output_file = None, stdout = []\<rparr>"

text \<open>
  Cards for the writer: two cards with accents, a middle dot, quotes, a comma, a line
  break and characters outside the basic plane; a card with a lone surrogate; and a card
  with a field of 131073 characters.
\<close>

definition example_csv_cards :: "card list" where
  "example_csv_cards =
     [\<lparr>card_type = lit ''basic'',
       card_front = lit ''Defineix: \"c'' @ [0xE8] @ lit ''l'' @ [0xB7] @ lit ''lula\", 2...'',
       card_back = lit ''l'' @ [0xED] @ lit ''nia 1'' @ [13, 10] @ lit ''l'' @ [0xED] @ lit ''nia 2'',
       card_section = [0x2714, 0x1F600], card_approved = lit ''no''\<rparr>,
      \<lparr>card_type = lit ''cloze'', card_front = [], card_back = [],
       card_section = lit ''General'', card_approved = lit ''no''\<rparr>]"

definition surrogate_card :: card where
  "surrogate_card =
     \<lparr>card_type = lit ''cloze'', card_front = [0xD800], card_back = [],
      card_section = lit ''General'', card_approved = lit ''no''\<rparr>"

definition long_field :: str where
  "long_field = replicate 131073 97"

definition long_card :: card where
  "long_card =
     \<lparr>card_type = lit ''cloze'', card_front = long_field, card_back = [],
      card_section = lit ''General'', card_approved = lit ''no''\<rparr>"

section \<open>Words, the longest word and replacement\<close>

lemma lit_simps [simp]:
  "lit [] = []" "lit (c # cs) = of_char c # lit cs"
  by (simp_all add: lit_def)

lemma startswith_iff: "startswith s p \<longleftrightarrow> (\<exists>q. s = p @ q)"
proof
  assume "startswith s p"
  then have "s = p @ drop (length p) s"
    unfolding startswith_def by (metis append_take_drop_id)
  then show "\<exists>q. s = p @ q" ..
next
  assume "\<exists>q. s = p @ q"
  then show "startswith s p" by (auto simp: startswith_def)
qed

lemma startswith_prefix: "startswith s p \<longleftrightarrow> prefix p s"
  by (simp add: startswith_iff prefix_def)

lemma startswith_any_iff: "startswith_any s ps \<longleftrightarrow> (\<exists>p \<in> set ps. prefix p s)"
  by (simp add: startswith_any_def list_ex_iff startswith_prefix)

text \<open>
  Every word of \<open>str_split\<close> is a piece of the sentence.
\<close>

lemma str_split_sub:
  "w \<in> set (str_split s) \<Longrightarrow> \<exists>pre post. s = pre @ w @ post"
proof (induction s rule: str_split.induct)
  case (1 s)
  define t where "t = dropWhile isspace s"
  have s: "s = takeWhile isspace s @ t" by (simp add: t_def)
  have t: "t = takeWhile (\<lambda>c. \<not> isspace c) t @ dropWhile (\<lambda>c. \<not> isspace c) t" by simp
  from "1.prems" have ne: "t \<noteq> []"
    by (subst (asm) str_split.simps) (auto simp: t_def Let_def split: if_splits)
  from "1.prems" ne consider
    (first) "w = takeWhile (\<lambda>c. \<not> isspace c) t"
    | (later) "w \<in> set (str_split (dropWhile (\<lambda>c. \<not> isspace c) t))"
    by (subst (asm) str_split.simps) (auto simp: t_def Let_def split: if_splits)
  then show ?case
  proof cases
    case first
    have "s = takeWhile isspace s @ w @ dropWhile (\<lambda>c. \<not> isspace c) t"
      using s t first by simp
    then show ?thesis by blast
  next
    case later
    from "1.IH"[OF t_def ne later] obtain pre post
      where "dropWhile (\<lambda>c. \<not> isspace c) t = pre @ w @ post" by blast
    then have "s = (takeWhile isspace s @ takeWhile (\<lambda>c. \<not> isspace c) t @ pre) @ w @ post"
      using s t by (metis append.assoc)
    then show ?thesis by blast
  qed
qed

text \<open>
  \<^verbatim>\<open>max\<close> with \<^verbatim>\<open>key=len\<close> returns the first item of maximal length.
\<close>

lemma max_len_decomp:
  "\<exists>pre post. m # ws = pre @ max_len m ws # post \<and>
     (\<forall>v \<in> set pre. length v < length (max_len m ws)) \<and>
     (\<forall>v \<in> set post. length v \<le> length (max_len m ws))"
proof (induction ws arbitrary: m)
  case Nil
  have "[m] = [] @ max_len m [] # []" by simp
  then show ?case by (metis empty_iff list.set(1))
next
  case (Cons w ws)
  define m' where "m' = (if length m < length w then w else m)"
  define K where "K = max_len m' ws"
  have K: "max_len m (w # ws) = K" by (simp add: K_def m'_def)
  from Cons.IH[of m'] obtain pre post where d: "m' # ws = pre @ K # post"
    and lt: "\<forall>v \<in> set pre. length v < length K"
    and le: "\<forall>v \<in> set post. length v \<le> length K"
    unfolding K_def by blast
  have m'K: "length m' \<le> length K"
    using d lt by (cases pre) auto
  show ?case
  proof (cases "length m < length w")
    case True
    then have "m' = w" by (simp add: m'_def)
    then have "m # w # ws = (m # pre) @ K # post" using d by simp
    moreover have "\<forall>v \<in> set (m # pre). length v < length K"
      using lt True m'K \<open>m' = w\<close> by auto
    ultimately show ?thesis unfolding K using le by blast
  next
    case False
    then have mm: "m' = m" by (simp add: m'_def)
    show ?thesis
    proof (cases pre)
      case Nil
      then have "m # w # ws = [] @ K # (w # post)" using d mm by simp
      moreover have "\<forall>v \<in> set (w # post). length v \<le> length K"
        using le False d mm Nil by auto
      ultimately show ?thesis unfolding K by (metis empty_iff list.set(1))
    next
      case (Cons p pre')
      then have pm: "p = m" and ws: "ws = pre' @ K # post" using d mm by auto
      have "m # w # ws = (m # w # pre') @ K # post" using ws by simp
      moreover have "\<forall>v \<in> set (m # w # pre'). length v < length K"
        using lt Cons pm False by auto
      ultimately show ?thesis unfolding K using le by blast
    qed
  qed
qed

lemma longest_word_decomp:
  assumes "ws = pre @ k # post"
    and "\<forall>v \<in> set pre. length v < length k"
    and "\<forall>v \<in> set post. length v \<le> length k"
  shows "longest_word ws = k"
proof -
  have a: "\<forall>v \<in> set ws. length v \<le> length k" using assms by auto
  have b: "filter (\<lambda>w. \<forall>v \<in> set ws. length v \<le> length w) pre = []"
    using assms by (auto simp: filter_empty_conv intro!: bexI[of _ k])
  show ?thesis
    unfolding longest_word_def using a b by (simp add: assms(1))
qed

lemma max_len_longest: "max_len m ws = longest_word (m # ws)"
proof -
  from max_len_decomp[of m ws] obtain pre post where
    "m # ws = pre @ max_len m ws # post"
    "\<forall>v \<in> set pre. length v < length (max_len m ws)"
    "\<forall>v \<in> set post. length v \<le> length (max_len m ws)" by blast
  then show ?thesis by (rule longest_word_decomp[symmetric])
qed

lemma longest_word_in: "ws \<noteq> [] \<Longrightarrow> longest_word ws \<in> set ws"
proof -
  assume "ws \<noteq> []"
  then obtain m rest where ws: "ws = m # rest" by (cases ws) auto
  from max_len_decomp[of m rest] have "max_len m rest \<in> set (m # rest)"
    by (metis in_set_conv_decomp)
  then show ?thesis by (simp add: ws max_len_longest)
qed

text \<open>
  \<open>replace1\<close> replaces the leftmost occurrence, where there is one.
\<close>

lemma replace1_first:
  "\<exists>p q. s = p @ old @ q \<Longrightarrow> replaces_first s old new (replace1 old new s)"
proof (induction s)
  case Nil
  then show ?case by (auto simp: replaces_first_def)
next
  case (Cons c cs)
  show ?case
  proof (cases "startswith (c # cs) old")
    case True
    then have "c # cs = [] @ old @ drop (length old) (c # cs)"
      unfolding startswith_def by (metis append_Nil append_take_drop_id)
    moreover have "replace1 old new (c # cs) = [] @ new @ drop (length old) (c # cs)"
      using True by simp
    ultimately show ?thesis unfolding replaces_first_def by (metis list.size(3) le0)
  next
    case False
    have tl: "\<exists>p'. p = c # p' \<and> cs = p' @ old @ q" if "c # cs = p @ old @ q" for p q
    proof (cases p)
      case Nil
      with that False show ?thesis by (auto simp: startswith_iff)
    next
      case (Cons a p')
      with that show ?thesis by auto
    qed
    from Cons.prems tl have "\<exists>p q. cs = p @ old @ q" by blast
    from Cons.IH[OF this] obtain pre post where cs: "cs = pre @ old @ post"
      and r: "replace1 old new cs = pre @ new @ post"
      and mn: "\<forall>p q. cs = p @ old @ q \<longrightarrow> length pre \<le> length p"
      unfolding replaces_first_def by blast
    have a: "c # cs = (c # pre) @ old @ post" using cs by simp
    have b: "replace1 old new (c # cs) = (c # pre) @ new @ post"
      using False r by simp
    have "length (c # pre) \<le> length p" if "c # cs = p @ old @ q" for p q
    proof -
      from tl[OF that] obtain p' where p: "p = c # p'" and "cs = p' @ old @ q" by blast
      with mn have "length pre \<le> length p'" by blast
      then show ?thesis by (simp add: p)
    qed
    then have c: "\<forall>p q. c # cs = p @ old @ q \<longrightarrow> length (c # pre) \<le> length p"
      by blast
    show ?thesis unfolding replaces_first_def
      using a b c by (intro exI[of _ "c # pre"] exI[of _ post] conjI)
  qed
qed

lemma cloze_replaces:
  assumes "10 \<le> length (str_split s)"
  shows "replaces_first s (longest_word (str_split s)) new
           (replace1 (longest_word (str_split s)) new s)"
proof -
  from assms have "str_split s \<noteq> []" by auto
  then have "longest_word (str_split s) \<in> set (str_split s)" by (rule longest_word_in)
  then have "\<exists>pre post. s = pre @ longest_word (str_split s) @ post" by (rule str_split_sub)
  then show ?thesis by (rule replace1_first)
qed

section \<open>The card generator\<close>

lemma generate_loop_step:
  "generate_loop cards ((sec, s) # rest) =
     generate_loop (cards @ basic_cards sec s @ cloze_cards sec s) rest"
  by (simp add: basic_cards_def cloze_cards_def Let_def split: prod.splits option.splits)

lemma generate_loop_acc:
  "generate_loop cards xs =
     cards @ concat (map (\<lambda>(sec, s). basic_cards sec s @ cloze_cards sec s) xs)"
proof (induction xs arbitrary: cards)
  case Nil
  show ?case by simp
next
  case (Cons p xs)
  obtain sec s where p: "p = (sec, s)" by (cases p)
  show ?case unfolding p generate_loop_step Cons.IH by simp
qed

lemma generate_cards_concat:
  "generate_cards xs = concat (map (\<lambda>(sec, s). basic_cards sec s @ cloze_cards sec s) xs)"
  by (simp add: generate_cards_def generate_loop_acc)

lemma generate_cards_single:
  "generate_cards [(sec, s)] = basic_cards sec s @ cloze_cards sec s"
  by (simp add: generate_cards_concat)

lemma generate_cards_append:
  "generate_cards (xs @ ys) = generate_cards xs @ generate_cards ys"
  by (simp add: generate_cards_concat)

lemma generate_cards_pairs:
  "generate_cards xs = concat (map (\<lambda>p. generate_cards [p]) xs)"
  by (induction xs) (simp_all add: generate_cards_concat)

lemma basic_cards_fields:
  "c \<in> set (basic_cards sec s) \<Longrightarrow>
     card_type c = lit ''basic'' \<and> card_section c = sec \<and> card_approved c = lit ''no''"
  by (auto simp: basic_cards_def split: if_splits)

lemma cloze_cards_fields:
  "c \<in> set (cloze_cards sec s) \<Longrightarrow>
     card_type c = lit ''cloze'' \<and> card_section c = sec \<and> card_approved c = lit ''no''"
  by (auto simp: cloze_cards_def split: if_splits option.splits)

lemma generate_cloze_Some:
  assumes "generate_cloze s = Some c"
  shows "10 \<le> length (str_split s)" and "6 \<le> length (longest_word (str_split s))"
    and "c = replace1 (longest_word (str_split s))
               (lit ''{{c1::'' @ longest_word (str_split s) @ lit ''}}'') s"
  using assms
  by (auto simp: generate_cloze_def Let_def max_len_longest split: if_splits list.splits)

lemma generate_cloze_None:
  assumes "generate_cloze s = None"
  shows "\<not> (10 \<le> length (str_split s) \<and> 6 \<le> length (longest_word (str_split s)))"
  using assms
  by (auto simp: generate_cloze_def Let_def max_len_longest split: if_splits list.splits)

lemma cloze_cards_eq:
  "cloze_cards sec s =
     (if 10 \<le> length (str_split s) \<and> 6 \<le> length (longest_word (str_split s)) then
        [\<lparr>card_type = lit ''cloze'',
          card_front = replace1 (longest_word (str_split s))
                        (lit ''{{c1::'' @ longest_word (str_split s) @ lit ''}}'') s,
          card_back = [], card_section = sec, card_approved = lit ''no''\<rparr>]
      else [])"
proof (cases "generate_cloze s")
  case None
  from generate_cloze_None[OF None] show ?thesis by (simp add: cloze_cards_def None)
next
  case (Some c)
  note f = generate_cloze_Some[OF Some]
  have "replaces_first s (longest_word (str_split s))
          (lit ''{{c1::'' @ longest_word (str_split s) @ lit ''}}'') c"
    unfolding f(3) using f(1) by (rule cloze_replaces)
  then have "c \<noteq> []" by (auto simp: replaces_first_def)
  then show ?thesis using f by (simp add: cloze_cards_def Some)
qed

lemma example_words:
  "str_split example_sentence =
     [lit ''La'', lit ''fotos'' @ [0xED] @ lit ''ntesi'', [0xE9, 0x73], lit ''el'',
      lit ''proc'' @ [0xE9, 0x73], lit ''pel'', lit ''qual'', lit ''les'', lit ''plantes'',
      lit ''converteixen'', lit ''llum'', lit ''en'', lit ''energia'',
      lit ''qu'' @ [0xED] @ lit ''mica.'']"
  by (simp add: example_sentence_def str_split.simps isspace_def)

lemma example_longest: "longest_word (str_split example_sentence) = lit ''converteixen''"
  by (simp add: example_words longest_word_def)

lemma example_cards:
  "generate_cards [(sec, example_sentence)] =
     [\<lparr>card_type = lit ''basic'',
       card_front = lit ''Defineix: La fotos'' @ [0xED] @ lit ''ntesi '' @ [0xE9] @
                    lit ''s el proc'' @ [0xE9] @ lit ''s...'',
       card_back = example_sentence, card_section = sec, card_approved = lit ''no''\<rparr>,
      \<lparr>card_type = lit ''cloze'',
       card_front = lit ''La fotos'' @ [0xED] @ lit ''ntesi '' @ [0xE9] @ lit ''s el proc'' @
                    [0xE9] @ lit ''s pel qual les plantes {{c1::converteixen}} llum en energia qu'' @
                    [0xED] @ lit ''mica.'',
       card_back = [], card_section = sec, card_approved = lit ''no''\<rparr>]"
proof -
  have d: "is_definition example_sentence"
    by (simp add: is_definition_def example_words startswith_any_def DEFINITION_STARTERS_def
        startswith_def) (simp add: example_sentence_def)
  have c: "generate_cloze example_sentence =
      Some (lit ''La fotos'' @ [0xED] @ lit ''ntesi '' @ [0xE9] @ lit ''s el proc'' @
                    [0xE9] @ lit ''s pel qual les plantes {{c1::converteixen}} llum en energia qu'' @
                    [0xED] @ lit ''mica.'')"
    by (simp add: generate_cloze_def example_words) (simp add: example_sentence_def startswith_def)
  have b: "generate_basic_card example_sentence =
      (lit ''Defineix: La fotos'' @ [0xED] @ lit ''ntesi '' @ [0xE9] @
                    lit ''s el proc'' @ [0xE9] @ lit ''s...'', example_sentence)"
    by (simp add: generate_basic_card_def example_words)
  show ?thesis
    unfolding generate_cards_single basic_cards_def cloze_cards_def c b using d by simp
qed

text \<open>
  Claim C1. For every sentence, a cloze card is emitted if and only if the sentence has
  at least 10 whitespace-delimited words and its longest word (the first one in word order
  among those of maximal length) has at least 6 characters. When it is emitted, its front
  is the sentence with the first occurrence of that word replaced by the word wrapped as
  \<^verbatim>\<open>{{c1::word}}\<close>, nothing else altered, its back is empty and its type is \<^verbatim>\<open>cloze\<close>.
\<close>

theorem cloze_card_emitted:
  "\<exists>front.
     filter (\<lambda>c. card_type c = lit ''cloze'') (generate_cards [(sec, s)]) =
       (if 10 \<le> length (str_split s) \<and> 6 \<le> length (longest_word (str_split s)) then
          [\<lparr>card_type = lit ''cloze'', card_front = front, card_back = [],
            card_section = sec, card_approved = lit ''no''\<rparr>]
        else []) \<and>
     (10 \<le> length (str_split s) \<and> 6 \<le> length (longest_word (str_split s)) \<longrightarrow>
        replaces_first s (longest_word (str_split s))
          (lit ''{{c1::'' @ longest_word (str_split s) @ lit ''}}'') front)"
proof -
  let ?k = "longest_word (str_split s)"
  let ?front = "replace1 ?k (lit ''{{c1::'' @ ?k @ lit ''}}'') s"
  have "filter (\<lambda>c. card_type c = lit ''cloze'') (basic_cards sec s) = []"
    by (simp add: basic_cards_def)
  then have "filter (\<lambda>c. card_type c = lit ''cloze'') (generate_cards [(sec, s)]) =
      (if 10 \<le> length (str_split s) \<and> 6 \<le> length ?k then
          [\<lparr>card_type = lit ''cloze'', card_front = ?front, card_back = [],
            card_section = sec, card_approved = lit ''no''\<rparr>]
        else [])"
    by (simp add: generate_cards_single cloze_cards_eq)
  moreover have "10 \<le> length (str_split s) \<and> 6 \<le> length ?k \<longrightarrow>
        replaces_first s ?k (lit ''{{c1::'' @ ?k @ lit ''}}'') ?front"
    using cloze_replaces by blast
  ultimately show ?thesis by blast
qed

theorem cloze_card_emitted_witness:
  "\<exists>front.
     filter (\<lambda>c. card_type c = lit ''cloze'')
       (generate_cards [(lit ''General'', example_sentence)]) =
       [\<lparr>card_type = lit ''cloze'', card_front = front, card_back = [],
         card_section = lit ''General'', card_approved = lit ''no''\<rparr>] \<and>
     replaces_first example_sentence (lit ''converteixen'') (lit ''{{c1::converteixen}}'') front"
  using cloze_card_emitted[of "lit ''General''" example_sentence]
  by (simp add: example_longest) (simp add: example_words)

text \<open>
  Claim C2. For every sentence, a basic card is emitted if and only if the sentence
  starts with one of the seven definition starters and has strictly more than 8
  whitespace-delimited words. When it is emitted, its front is \<^verbatim>\<open>Defineix: \<close> followed by
  the first 5 words joined with single spaces and by three dots, its back is the sentence
  unchanged and its type is \<^verbatim>\<open>basic\<close>.
\<close>

theorem basic_card_emitted:
  "filter (\<lambda>c. card_type c = lit ''basic'') (generate_cards [(sec, s)]) =
     (if (\<exists>p \<in> {lit ''Es denomina'', [0xC9, 0x73], lit ''Es produeix'', lit ''La'',
                  lit ''El'', lit ''Els'', lit ''Les''}. prefix p s) \<and>
         8 < length (str_split s) then
        [\<lparr>card_type = lit ''basic'',
          card_front = lit ''Defineix: '' @ join (lit '' '') (take 5 (str_split s)) @ lit ''...'',
          card_back = s, card_section = sec, card_approved = lit ''no''\<rparr>]
      else [])"
proof -
  have c: "filter (\<lambda>c. card_type c = lit ''basic'') (cloze_cards sec s) = []"
    by (simp add: cloze_cards_def split: option.splits)
  have d: "is_definition s \<longleftrightarrow>
      (\<exists>p \<in> {lit ''Es denomina'', [0xC9, 0x73], lit ''Es produeix'', lit ''La'',
                  lit ''El'', lit ''Els'', lit ''Les''}. prefix p s) \<and>
         8 < length (str_split s)"
    unfolding is_definition_def startswith_any_iff DEFINITION_STARTERS_def by simp
  show ?thesis
    unfolding generate_cards_single filter_append c
    by (simp add: basic_cards_def d generate_basic_card_def Let_def del: lit_simps)
qed

theorem basic_card_emitted_witness:
  "filter (\<lambda>c. card_type c = lit ''basic'')
     (generate_cards [(lit ''General'', example_sentence)]) =
     [\<lparr>card_type = lit ''basic'',
       card_front = lit ''Defineix: La fotos'' @ [0xED] @ lit ''ntesi '' @ [0xE9] @
                    lit ''s el proc'' @ [0xE9] @ lit ''s...'',
       card_back = example_sentence, card_section = lit ''General'',
       card_approved = lit ''no''\<rparr>]"
proof -
  have p: "prefix (lit ''La'') example_sentence" by (simp add: example_sentence_def)
  show ?thesis
    using basic_card_emitted[of "lit ''General''" example_sentence] p
    by (simp add: example_words)
qed

text \<open>
  Claim C8. The cards of a sectioned sequence are the cards of its pairs, pair by pair,
  and every card that comes from a pair has \<^verbatim>\<open>no\<close> in its approved field, the section
  label of that pair in its section field, and type \<^verbatim>\<open>basic\<close> or \<^verbatim>\<open>cloze\<close>.
\<close>

theorem card_fields_invariant:
  "generate_cards xs = concat (map (\<lambda>p. generate_cards [p]) xs) \<and>
   (\<forall>c \<in> set (generate_cards [(sec, s)]).
      card_approved c = lit ''no'' \<and> card_section c = sec \<and>
      card_type c \<in> {lit ''basic'', lit ''cloze''})"
proof -
  have "card_approved c = lit ''no'' \<and> card_section c = sec \<and>
        card_type c \<in> {lit ''basic'', lit ''cloze''}"
    if "c \<in> set (generate_cards [(sec, s)])" for c
  proof -
    from that consider "c \<in> set (basic_cards sec s)" | "c \<in> set (cloze_cards sec s)"
      by (auto simp: generate_cards_single)
    then show ?thesis
    proof cases
      case 1
      from basic_cards_fields[OF this] show ?thesis by blast
    next
      case 2
      from cloze_cards_fields[OF this] show ?thesis by blast
    qed
  qed
  then show ?thesis using generate_cards_pairs by blast
qed

theorem card_fields_invariant_witness:
  "generate_cards [(lit ''1 Intro'', example_sentence), (lit ''2 Fi'', lit ''Curt.'')] =
     generate_cards [(lit ''1 Intro'', example_sentence)] @
     generate_cards [(lit ''2 Fi'', lit ''Curt.'')] \<and>
   length (generate_cards [(lit ''1 Intro'', example_sentence)]) = 2 \<and>
   list_all
     (\<lambda>c. card_approved c = lit ''no'' \<and> card_section c = lit ''1 Intro'' \<and>
          card_type c \<in> {lit ''basic'', lit ''cloze''})
     (generate_cards [(lit ''1 Intro'', example_sentence)])"
proof -
  have "length (generate_cards [(lit ''1 Intro'', example_sentence)]) = 2"
    unfolding example_cards by simp
  then show ?thesis
    using card_fields_invariant[of
        "[(lit ''1 Intro'', example_sentence), (lit ''2 Fi'', lit ''Curt.'')]"
        "lit ''1 Intro''" example_sentence]
    by (simp add: list_all_iff)
qed

text \<open>
  Claim C9. A pair contributes at most two cards; the cards of an earlier pair come
  before the cards of every later pair; and when both heuristics fire for a sentence, its
  cards are the basic card followed directly by the cloze card.
\<close>

theorem card_order:
  "length (generate_cards [(sec, s)]) \<le> 2 \<and>
   generate_cards (xs @ ys) = generate_cards xs @ generate_cards ys \<and>
   (is_definition s \<and> generate_cloze s \<noteq> None \<longrightarrow>
      map card_type (generate_cards [(sec, s)]) = [lit ''basic'', lit ''cloze''])"
proof -
  have 1: "length (generate_cards [(sec, s)]) \<le> 2"
    by (simp add: generate_cards_single basic_cards_def cloze_cards_def split: option.splits)
  have 3: "map card_type (generate_cards [(sec, s)]) = [lit ''basic'', lit ''cloze'']"
    if "is_definition s" and "generate_cloze s \<noteq> None"
  proof -
    from that(2) obtain c where c: "generate_cloze s = Some c" by auto
    note f = generate_cloze_Some[OF c]
    have "cloze_cards sec s \<noteq> []" using f(1,2) by (simp add: cloze_cards_eq)
    then have "map card_type (cloze_cards sec s) = [lit ''cloze'']"
      by (simp add: cloze_cards_def c split: if_splits)
    then show ?thesis using that(1) by (simp add: generate_cards_single basic_cards_def)
  qed
  from 1 3 generate_cards_append show ?thesis by blast
qed

theorem card_order_witness:
  "is_definition example_sentence \<and> generate_cloze example_sentence \<noteq> None \<and>
   map card_type (generate_cards [(lit ''General'', example_sentence)]) =
     [lit ''basic'', lit ''cloze'']"
proof -
  have d: "is_definition example_sentence"
    by (simp add: is_definition_def example_words startswith_any_def DEFINITION_STARTERS_def
        startswith_def) (simp add: example_sentence_def)
  have c: "generate_cloze example_sentence \<noteq> None"
    by (simp add: generate_cloze_def example_words)
  show ?thesis
    using card_order[of "lit ''General''" example_sentence] d c by blast
qed

section \<open>The heading pattern\<close>

text \<open>
  The first way in which backtracking gets through each part of the pattern.
\<close>

lemma first_seq:
  "first_result r1 st x \<Longrightarrow> first_result r2 x y \<Longrightarrow> first_result (Seq r1 r2) st y"
  by (auto simp: first_result_def)

lemma first_bol: "first_result Bol (0, s, g) (0, s, g)"
  by (simp add: first_result_def)

lemma first_class: "P c \<Longrightarrow> first_result (Class P) (i, c # cs, g) (Suc i, cs, g)"
  by (simp add: first_result_def)

lemma first_chr: "first_result (Chr c) (i, c # cs, g) (Suc i, cs, g)"
  by (simp add: first_result_def Chr_def)

lemma first_group:
  "first_result r (i, s, g) (j, s', g') \<Longrightarrow>
   first_result (Group k r) (i, s, g) (j, s', g'(k \<mapsto> take (j - i) s))"
  by (auto simp: first_result_def)

lemma step_stop: "rest = [] \<or> \<not> P (hd rest) \<Longrightarrow> step P (i, rest, g) = []"
  by (cases rest) auto

lemma star_stop: "f st = [] \<Longrightarrow> star f n st = [st]"
  by (cases n) auto

lemma star_more:
  assumes "f st = x # xs" and "fst st < fst x" and "star f n x = y # ys"
  shows "\<exists>zs. star f (Suc n) st = y # zs"
  using assms by simp

lemma star_class_first:
  "list_all P ds \<Longrightarrow> rest = [] \<or> \<not> P (hd rest) \<Longrightarrow> length (ds @ rest) \<le> n \<Longrightarrow>
   \<exists>xs. star (step P) n (i, ds @ rest, g) = (i + length ds, rest, g) # xs"
proof (induction ds arbitrary: n i)
  case Nil
  then show ?case by (simp add: star_stop step_stop)
next
  case (Cons d ds)
  from Cons.prems(3) obtain n' where n: "n = Suc n'" and le: "length (ds @ rest) \<le> n'"
    by (cases n) auto
  from Cons.prems(1) have d: "P d" and ds: "list_all P ds" by auto
  from Cons.IH[OF ds Cons.prems(2) le, of "Suc i"] obtain xs
    where "star (step P) n' (Suc i, ds @ rest, g) = (Suc i + length ds, rest, g) # xs" by blast
  then show ?case using d by (simp add: n)
qed

lemma first_star_class:
  assumes "list_all P ds" and "rest = [] \<or> \<not> P (hd rest)"
  shows "first_result (Star (Class P)) (i, ds @ rest, g) (i + length ds, rest, g)"
  using star_class_first[OF assms le_refl, of i g] by (simp add: first_result_def)

lemma first_plus_class:
  assumes "ds \<noteq> []" and "list_all P ds" and "rest = [] \<or> \<not> P (hd rest)"
  shows "first_result (Plus (Class P)) (i, ds @ rest, g) (i + length ds, rest, g)"
proof -
  from assms(1) obtain d ds' where ds: "ds = d # ds'" by (cases ds) auto
  with assms(2) have d: "P d" and ds': "list_all P ds'" by auto
  have "first_result (Class P) (i, ds @ rest, g) (Suc i, ds' @ rest, g)"
    using d by (simp add: ds first_class)
  moreover have "first_result (Star (Class P)) (Suc i, ds' @ rest, g)
                   (Suc i + length ds', rest, g)"
    using ds' assms(3) by (rule first_star_class)
  ultimately show ?thesis unfolding Plus_def by (simp add: ds first_seq)
qed

lemma not_decimal_dot [simp]: "\<not> isdecimal nd 46"
  by (simp add: isdecimal_def)

lemma first_numbering_tail:
  assumes "seg \<noteq> []" and "list_all (isdecimal nd) seg"
    and "rest = [] \<or> \<not> isdecimal nd (hd rest)"
  shows "first_result (numbering_tail nd) (i, 46 # seg @ rest, g)
           (Suc i + length seg, rest, g(2 \<mapsto> 46 # seg))"
proof -
  have "first_result (Seq (Chr 46) (Plus (Class (isdecimal nd)))) (i, 46 # seg @ rest, g)
          (Suc i + length seg, rest, g)"
    using first_chr first_plus_class[OF assms] by (rule first_seq)
  from first_group[OF this, of 2] show ?thesis by (simp add: numbering_tail_def)
qed

lemma numbering_tail_fail:
  assumes "t = [] \<or> \<not> isdecimal nd (hd t)"
  shows "ms (numbering_tail nd) (i, 46 # t, g) = []"
  using assms by (cases t) (auto simp: numbering_tail_def Chr_def Plus_def)

lemma join_dotted: "join [46] (d # ds) = d @ dotted ds"
  by (induction ds arbitrary: d) auto

lemma star_numbering_first:
  "\<forall>d \<in> set segs. d \<noteq> [] \<and> list_all (isdecimal nd) d \<Longrightarrow>
   t = [] \<or> \<not> isdecimal nd (hd t) \<Longrightarrow>
   length (dotted segs @ 46 # t) \<le> n \<Longrightarrow>
   \<exists>g' xs. star (ms (numbering_tail nd)) n (i, dotted segs @ 46 # t, g) =
             (i + length (dotted segs), 46 # t, g') # xs"
proof (induction segs arbitrary: n i g)
  case Nil
  then show ?case by (simp add: star_stop numbering_tail_fail)
next
  case (Cons seg segs)
  from Cons.prems(3) obtain n' where n: "n = Suc n'"
    and le: "length (dotted segs @ 46 # t) \<le> n'"
    by (cases n) auto
  from Cons.prems(1) have seg: "seg \<noteq> []" "list_all (isdecimal nd) seg"
    and segs: "\<forall>d \<in> set segs. d \<noteq> [] \<and> list_all (isdecimal nd) d" by auto
  have hd: "dotted segs @ 46 # t = [] \<or> \<not> isdecimal nd (hd (dotted segs @ 46 # t))"
    by (cases segs) auto
  from first_numbering_tail[OF seg hd, of i g] obtain xs where
    f: "ms (numbering_tail nd) (i, 46 # seg @ dotted segs @ 46 # t, g) =
          (Suc i + length seg, dotted segs @ 46 # t, g(2 \<mapsto> 46 # seg)) # xs"
    unfolding first_result_def by blast
  from Cons.IH[OF segs Cons.prems(2) le, of "Suc i + length seg" "g(2 \<mapsto> 46 # seg)"]
  obtain g' ys where
    s: "star (ms (numbering_tail nd)) n' (Suc i + length seg, dotted segs @ 46 # t, g(2 \<mapsto> 46 # seg)) =
          (Suc i + length seg + length (dotted segs), 46 # t, g') # ys" by blast
  have "\<exists>zs. star (ms (numbering_tail nd)) (Suc n') (i, 46 # seg @ dotted segs @ 46 # t, g) =
          (Suc i + length seg + length (dotted segs), 46 # t, g') # zs"
    using f _ s by (rule star_more) simp
  then show ?case by (auto simp: n)
qed

lemma first_star_numbering:
  assumes "\<forall>d \<in> set segs. d \<noteq> [] \<and> list_all (isdecimal nd) d"
    and "t = [] \<or> \<not> isdecimal nd (hd t)"
  shows "\<exists>g'. first_result (Star (numbering_tail nd)) (i, dotted segs @ 46 # t, g)
           (i + length (dotted segs), 46 # t, g')"
  using star_numbering_first[OF assms le_refl, of i g] by (auto simp: first_result_def)

lemma SECTION_REGEX_alt:
  "SECTION_REGEX nd =
     Seq Bol
      (Seq (Group 1 (Seq (Plus (Class (isdecimal nd))) (Star (numbering_tail nd))))
        (Seq (Chr 46)
          (Seq (Star (Class isspace))
               (Group 3 (Plus (Class (\<lambda>c. c \<noteq> 10)))))))"
  by (simp add: SECTION_REGEX_def numbering_tail_def)

text \<open>
  A numbering \<^verbatim>\<open>d1.d2...dn\<close>, a period, white space and a label on one line: the pattern
  matches, group 1 is the numbering and group 3 the label.
\<close>

lemma heading_match:
  assumes ds: "ds \<noteq> []" "\<forall>d \<in> set ds. d \<noteq> [] \<and> list_all (isdecimal nd) d"
    and ws: "list_all isspace ws"
    and label: "label \<noteq> []" "\<not> isspace (hd label)" "10 \<notin> set label"
    and nodigit: "\<not> isdecimal nd (hd (ws @ label))"
  shows "\<exists>m. re_match (SECTION_REGEX nd) (join [46] ds @ 46 # ws @ label) = Some m \<and>
             m 1 = Some (join [46] ds) \<and> m 3 = Some label"
proof -
  from ds(1) obtain d segs where dsc: "ds = d # segs" by (cases ds) auto
  with ds(2) have d: "d \<noteq> []" "list_all (isdecimal nd) d"
    and segs: "\<forall>d \<in> set segs. d \<noteq> [] \<and> list_all (isdecimal nd) d" by auto
  define t where "t = ws @ label"
  define num where "num = d @ dotted segs"
  define p where "p = num @ 46 # t"
  have num: "join [46] ds = num" by (simp add: dsc join_dotted num_def)
  have t: "t = [] \<or> \<not> isdecimal nd (hd t)" using nodigit by (simp add: t_def)
  have hd: "dotted segs @ 46 # t = [] \<or> \<not> isdecimal nd (hd (dotted segs @ 46 # t))"
    by (cases segs) auto
  have p: "p = d @ dotted segs @ 46 # t" by (simp add: p_def num_def)
  have 1: "first_result (Plus (Class (isdecimal nd))) (0, p, Map.empty)
             (0 + length d, dotted segs @ 46 # t, Map.empty)"
    unfolding p using d hd by (rule first_plus_class)
  from first_star_numbering[OF segs t, of "0 + length d" Map.empty] obtain g' where
    2: "first_result (Star (numbering_tail nd)) (0 + length d, dotted segs @ 46 # t, Map.empty)
          (0 + length d + length (dotted segs), 46 # t, g')" by blast
  have "first_result (Seq (Plus (Class (isdecimal nd))) (Star (numbering_tail nd)))
          (0, p, Map.empty) (0 + length d + length (dotted segs), 46 # t, g')"
    using 1 2 by (rule first_seq)
  from first_group[OF this, of 1]
  have 3: "first_result (Group 1 (Seq (Plus (Class (isdecimal nd))) (Star (numbering_tail nd))))
          (0, p, Map.empty) (length num, 46 # t, g'(1 \<mapsto> num))"
    by (simp add: num_def p_def)
  have 4: "first_result (Chr 46) (length num, 46 # t, g'(1 \<mapsto> num))
             (Suc (length num), t, g'(1 \<mapsto> num))"
    by (rule first_chr)
  have 5: "first_result (Star (Class isspace)) (Suc (length num), t, g'(1 \<mapsto> num))
             (Suc (length num) + length ws, label, g'(1 \<mapsto> num))"
    unfolding t_def using ws label(2) by (intro first_star_class) auto
  have nl: "list_all (\<lambda>c. c \<noteq> 10) label" using label(3) by (auto simp: list_all_iff)
  have "first_result (Plus (Class (\<lambda>c. c \<noteq> 10)))
             (Suc (length num) + length ws, label @ [], g'(1 \<mapsto> num))
             (Suc (length num) + length ws + length label, [], g'(1 \<mapsto> num))"
    using label(1) nl by (intro first_plus_class) auto
  from first_group[OF this, of 3]
  have 6: "first_result (Group 3 (Plus (Class (\<lambda>c. c \<noteq> 10))))
             (Suc (length num) + length ws, label, g'(1 \<mapsto> num))
             (Suc (length num) + length ws + length label, [], g'(1 \<mapsto> num, 3 \<mapsto> label))"
    by simp
  have "first_result (SECTION_REGEX nd) (0, p, Map.empty)
          (Suc (length num) + length ws + length label, [], g'(1 \<mapsto> num, 3 \<mapsto> label))"
    unfolding SECTION_REGEX_alt
    by (intro first_seq[OF first_bol] first_seq[OF 3] first_seq[OF 4] first_seq[OF 5] 6)
  then have "re_match (SECTION_REGEX nd) p = Some (g'(1 \<mapsto> num, 3 \<mapsto> label))"
    by (auto simp: first_result_def re_match_def)
  then show ?thesis by (simp add: num p_def t_def)
qed

text \<open>
  Every way in which a greedy repetition of a character class can end, and with it: a
  number, a period and any further text that is not only line feeds match the pattern.
\<close>

lemma reach_seq:
  "x \<in> set (ms r1 st) \<Longrightarrow> y \<in> set (ms r2 x) \<Longrightarrow> y \<in> set (ms (Seq r1 r2) st)"
  by auto

lemma star_self: "st \<in> set (star f n st)"
  by (cases n) auto

lemma star_class_all:
  "length s \<le> n \<Longrightarrow>
   star (step P) n (i, s, g) =
     map (\<lambda>k. (i + k, drop k s, g)) (rev [0..<Suc (length (takeWhile P s))])"
proof (induction s arbitrary: n i)
  case Nil
  show ?case by (simp add: star_stop)
next
  case (Cons c cs)
  show ?case
  proof (cases "P c")
    case False
    then show ?thesis by (simp add: star_stop)
  next
    case True
    from Cons.prems obtain n' where n: "n = Suc n'" and le: "length cs \<le> n'"
      by (cases n) auto
    let ?m = "length (takeWhile P cs)"
    have "[0..<Suc (Suc ?m)] = 0 # [Suc 0..<Suc (Suc ?m)]"
      by (rule upt_conv_Cons) simp
    also have "[Suc 0..<Suc (Suc ?m)] = map Suc [0..<Suc ?m]"
      by (rule map_Suc_upt[symmetric])
    finally have u: "[0..<Suc (Suc ?m)] = 0 # map Suc [0..<Suc ?m]" .
    have "star (step P) n (i, c # cs, g) =
            star (step P) n' (Suc i, cs, g) @ [(i, c # cs, g)]"
      using True by (simp add: n)
    also have "star (step P) n' (Suc i, cs, g) =
            map (\<lambda>k. (Suc i + k, drop k cs, g)) (rev [0..<Suc ?m])"
      by (rule Cons.IH[OF le])
    finally show ?thesis
      using True unfolding takeWhile.simps length_Cons if_P[OF True] u
      by (simp add: rev_map comp_def del: upt_Suc)
  qed
qed

lemma star_class_reach:
  assumes "k \<le> length (takeWhile P s)"
  shows "(i + k, drop k s, g) \<in> set (ms (Star (Class P)) (i, s, g))"
proof -
  let ?ks = "rev [0..<Suc (length (takeWhile P s))]"
  have "k \<in> set ?ks" using assms by auto
  then have "(i + k, drop k s, g) \<in> (\<lambda>k. (i + k, drop k s, g)) ` set ?ks"
    by (rule imageI)
  then have "(i + k, drop k s, g) \<in> set (map (\<lambda>k. (i + k, drop k s, g)) ?ks)"
    by (simp only: set_map)
  moreover have "ms (Star (Class P)) (i, s, g) = map (\<lambda>k. (i + k, drop k s, g)) ?ks"
    using star_class_all[OF le_refl, of P s i g] by simp
  ultimately show ?thesis by (simp only:)
qed

lemma space_is_not_text:
  assumes "\<exists>c \<in> set t. c \<noteq> 10"
  shows "\<exists>k c cs. k \<le> length (takeWhile isspace t) \<and> drop k t = c # cs \<and> c \<noteq> 10"
proof (cases "dropWhile isspace t")
  case Nil
  from assms obtain k where k: "k < length t" "t ! k \<noteq> 10"
    by (metis in_set_conv_nth)
  from Nil have "takeWhile isspace t = t"
    by (metis append_Nil2 takeWhile_dropWhile_id)
  then have "length (takeWhile isspace t) = length t" by (simp only:)
  then have "k \<le> length (takeWhile isspace t)" using k(1) by linarith
  moreover have "drop k t = t ! k # drop (Suc k) t" using k(1) by (simp add: Cons_nth_drop_Suc)
  ultimately show ?thesis using k(2) by blast
next
  case (Cons c cs)
  then have "\<not> isspace c" by (metis hd_dropWhile list.sel(1) list.distinct(1))
  then have "c \<noteq> 10" by (auto simp: isspace_def)
  moreover have "drop (length (takeWhile isspace t)) t = c # cs"
    using Cons by (simp add: dropWhile_eq_drop)
  ultimately show ?thesis by blast
qed

lemma number_period_matches:
  assumes "d \<noteq> []" and "list_all (isdecimal nd) d" and "\<exists>c \<in> set t. c \<noteq> 10"
  shows "re_match (SECTION_REGEX nd) (d @ 46 # t) \<noteq> None"
proof -
  let ?p = "d @ 46 # t"
  have "first_result (Plus (Class (isdecimal nd))) (0, ?p, Map.empty)
          (0 + length d, 46 # t, Map.empty)"
    using assms(1,2) by (rule first_plus_class) simp
  then have 1: "(length d, 46 # t, Map.empty) \<in> set (ms (Plus (Class (isdecimal nd))) (0, ?p, Map.empty))"
    by (simp add: first_result_def) (metis list.set_intros(1))
  have 2: "(length d, 46 # t, Map.empty) \<in>
             set (ms (Star (numbering_tail nd)) (length d, 46 # t, Map.empty))"
    by (simp add: star_self)
  from reach_seq[OF 1 2]
  have "(length d, 46 # t, Map.empty(1 \<mapsto> take (length d - 0) ?p)) \<in>
      set (ms (Group 1 (Seq (Plus (Class (isdecimal nd))) (Star (numbering_tail nd))))
             (0, ?p, Map.empty))"
    by (simp del: ms.simps(3,4)) force
  then have 3: "(length d, 46 # t, [1 \<mapsto> d]) \<in>
      set (ms (Group 1 (Seq (Plus (Class (isdecimal nd))) (Star (numbering_tail nd))))
             (0, ?p, Map.empty))"
    by simp
  from space_is_not_text[OF assms(3)] obtain k c cs where
    k: "k \<le> length (takeWhile isspace t)" and dk: "drop k t = c # cs" and c: "c \<noteq> 10"
    by blast
  have 4: "(Suc (length d), t, [1 \<mapsto> d]) \<in> set (ms (Chr 46) (length d, 46 # t, [1 \<mapsto> d]))"
    by (simp add: Chr_def)
  have 5: "(Suc (length d) + k, c # cs, [1 \<mapsto> d]) \<in>
             set (ms (Star (Class isspace)) (Suc (length d), t, [1 \<mapsto> d]))"
    using star_class_reach[OF k, of "Suc (length d)" "[1 \<mapsto> d]"] by (simp add: dk)
  have "(Suc (Suc (length d) + k), cs, [1 \<mapsto> d]) \<in>
          set (ms (Class (\<lambda>c. c \<noteq> 10)) (Suc (length d) + k, c # cs, [1 \<mapsto> d]))"
    using c by simp
  moreover have "(Suc (Suc (length d) + k), cs, [1 \<mapsto> d]) \<in>
          set (ms (Star (Class (\<lambda>c. c \<noteq> 10))) (Suc (Suc (length d) + k), cs, [1 \<mapsto> d]))"
    by (simp add: star_self)
  ultimately have "(Suc (Suc (length d) + k), cs, [1 \<mapsto> d]) \<in>
          set (ms (Plus (Class (\<lambda>c. c \<noteq> 10))) (Suc (length d) + k, c # cs, [1 \<mapsto> d]))"
    unfolding Plus_def by (rule reach_seq)
  then have 6: "ms (Group 3 (Plus (Class (\<lambda>c. c \<noteq> 10))))
                  (Suc (length d) + k, c # cs, [1 \<mapsto> d]) \<noteq> []"
    by (auto simp del: ms.simps(3,4))
  then obtain y where
    y: "y \<in> set (ms (Group 3 (Plus (Class (\<lambda>c. c \<noteq> 10))))
                  (Suc (length d) + k, c # cs, [1 \<mapsto> d]))"
    by (meson last_in_set)
  have "y \<in> set (ms (SECTION_REGEX nd) (0, ?p, Map.empty))"
    unfolding SECTION_REGEX_alt
    by (intro reach_seq[of "(0, ?p, Map.empty)" Bol] reach_seq[OF 3] reach_seq[OF 4]
        reach_seq[OF 5] y) simp
  then have "ms (SECTION_REGEX nd) (0, ?p, Map.empty) \<noteq> []" by auto
  then show ?thesis by (auto simp: re_match_def split: list.splits)
qed

text \<open>
  A label that starts with a number: backtracking first tries the numbering that takes
  this number in, finds nothing it can match behind it, and comes back to the numbering
  that ends at the period.
\<close>

lemma heading_tail_dead: "dead s \<Longrightarrow> ms heading_tail (j, s, g) = []"
proof -
  assume "dead s"
  then consider "s = []" | c cs where "s = c # cs" "c \<noteq> 46" | "s = [46]"
    unfolding dead_def by (cases s) auto
  then show ?thesis
    by cases (simp_all add: heading_tail_def Chr_def Plus_def)
qed

lemma numbering_tail_dead: "dead s \<Longrightarrow> ms (numbering_tail nd) (j, s, g) = []"
proof -
  assume "dead s"
  then consider "s = []" | c cs where "s = c # cs" "c \<noteq> 46" | "s = [46]"
    unfolding dead_def by (cases s) auto
  then show ?thesis
    by cases (simp_all add: numbering_tail_def Chr_def Plus_def)
qed

lemma digit_dead: "s \<noteq> [] \<Longrightarrow> isdecimal nd (hd s) \<Longrightarrow> dead s"
  by (cases s) (auto simp: dead_def)

lemma plus_class_results:
  assumes "ds \<noteq> []" and "list_all P ds" and "rest = [] \<or> \<not> P (hd rest)"
  shows "\<exists>others. ms (Plus (Class P)) (i, ds @ rest, g) = (i + length ds, rest, g) # others \<and>
           (\<forall>(j, s', g') \<in> set others. s' \<noteq> [] \<and> P (hd s'))"
proof -
  from assms(1) obtain d ds' where ds: "ds = d # ds'" by (cases ds) auto
  with assms(2) have d: "P d" and ds': "list_all P ds'" by auto
  have tw: "takeWhile P (ds' @ rest) = ds'"
    using ds' assms(3) by (cases rest) (auto simp: list_all_iff takeWhile_append2)
  let ?F = "\<lambda>k. (Suc i + k, drop k (ds' @ rest), g)"
  have "ms (Plus (Class P)) (i, ds @ rest, g) = map ?F (rev [0..<Suc (length ds')])"
    using d star_class_all[OF le_refl, of P "ds' @ rest" "Suc i" g]
    by (simp add: Plus_def ds tw del: upt_Suc)
  also have "\<dots> = ?F (length ds') # map ?F (rev [0..<length ds'])"
    by simp
  finally have "ms (Plus (Class P)) (i, ds @ rest, g) =
      (i + length ds, rest, g) # map ?F (rev [0..<length ds'])"
    by (simp add: ds)
  moreover have "\<forall>(j, s', g') \<in> set (map ?F (rev [0..<length ds'])). s' \<noteq> [] \<and> P (hd s')"
    using ds' by (auto simp: list_all_length hd_drop_conv_nth nth_append)
  ultimately show ?thesis by blast
qed

lemma space_not_decimal: "isspace c \<Longrightarrow> \<not> isdecimal nd c"
  by (auto simp: isdecimal_def isspace_def)

lemma concat_map_keep:
  "concat (map (\<lambda>y. if Q y then [y] else []) ys) = filter Q ys"
  by (induction ys) auto

lemma star_all_stop:
  assumes "\<forall>y \<in> set (f st). f y = []"
  shows "star f (Suc n) st = filter (\<lambda>y. fst st < fst y) (f st) @ [st]"
proof -
  have eq: "map (\<lambda>y. if fst st < fst y then star f n y else []) (f st) =
        map (\<lambda>y. if fst st < fst y then [y] else []) (f st)"
    by (rule map_cong) (simp_all add: assms star_stop)
  have "star f (Suc n) st =
          concat (map (\<lambda>y. if fst st < fst y then star f n y else []) (f st)) @ [st]"
    by simp
  also have "\<dots> = concat (map (\<lambda>y. if fst st < fst y then [y] else []) (f st)) @ [st]"
    by (simp only: eq)
  also have "\<dots> = filter (\<lambda>y. fst st < fst y) (f st) @ [st]"
    by (simp only: concat_map_keep)
  finally show ?thesis .
qed

lemma star_numbering_last_part:
  assumes "e \<noteq> []" and "list_all (isdecimal nd) e" and "r = [] \<or> \<not> isdecimal nd (hd r)"
    and "dead r"
  shows "\<exists>pre. star (ms (numbering_tail nd)) (Suc n) (i, 46 # e @ r, g) =
                 pre @ [(i, 46 # e @ r, g)] \<and>
               (\<forall>(j, s', g') \<in> set pre. dead s')"
proof -
  let ?st = "(i, 46 # e @ r, g)"
  from plus_class_results[OF assms(1-3), of "Suc i" g] obtain others where
    p: "ms (Plus (Class (isdecimal nd))) (Suc i, e @ r, g) = (Suc i + length e, r, g) # others"
    and o: "\<forall>(j, s', g') \<in> set others. s' \<noteq> [] \<and> isdecimal nd (hd s')" by blast
  have d: "\<forall>(j, s', g') \<in> set ((Suc i + length e, r, g) # others). dead s'"
    using o assms(4) by (auto intro: digit_dead)
  have q: "ms (Seq (Chr 46) (Plus (Class (isdecimal nd)))) ?st =
             ms (Plus (Class (isdecimal nd))) (Suc i, e @ r, g)"
    by (simp add: Chr_def)
  have "ms (numbering_tail nd) ?st =
      map (\<lambda>(j, s', g'). (j, s', g'(2 \<mapsto> take (j - i) (46 # e @ r))))
        (ms (Seq (Chr 46) (Plus (Class (isdecimal nd)))) ?st)"
    by (simp add: numbering_tail_def del: ms.simps(3))
  then have m: "ms (numbering_tail nd) ?st =
      map (\<lambda>(j, s', g'). (j, s', g'(2 \<mapsto> take (j - i) (46 # e @ r))))
        ((Suc i + length e, r, g) # others)"
    unfolding q p .
  have dm: "\<forall>(j, s', g') \<in> set (ms (numbering_tail nd) ?st). dead s'"
    unfolding m using d by (auto simp del: ms.simps)
  then have "\<forall>y \<in> set (ms (numbering_tail nd) ?st). ms (numbering_tail nd) y = []"
    by (auto simp: numbering_tail_dead)
  from star_all_stop[OF this, of n]
  have "star (ms (numbering_tail nd)) (Suc n) ?st =
          filter (\<lambda>y. fst ?st < fst y) (ms (numbering_tail nd) ?st) @ [?st]" .
  moreover have "\<forall>(j, s', g') \<in> set (filter (\<lambda>y. fst ?st < fst y) (ms (numbering_tail nd) ?st)).
      dead s'"
    using dm by auto
  ultimately show ?thesis by blast
qed

lemma star_numbering_prefix:
  "\<forall>d \<in> set segs. d \<noteq> [] \<and> list_all (isdecimal nd) d \<Longrightarrow>
   e \<noteq> [] \<Longrightarrow> list_all (isdecimal nd) e \<Longrightarrow> r = [] \<or> \<not> isdecimal nd (hd r) \<Longrightarrow> dead r \<Longrightarrow>
   length (dotted segs @ 46 # e @ r) \<le> n \<Longrightarrow>
   \<exists>pre post g'. star (ms (numbering_tail nd)) n (i, dotted segs @ 46 # e @ r, g) =
                    pre @ (i + length (dotted segs), 46 # e @ r, g') # post \<and>
                  (\<forall>(j, s', g'') \<in> set pre. dead s')"
proof (induction segs arbitrary: n i g)
  case Nil
  from Nil.prems(6) obtain n' where n: "n = Suc n'" by (cases n) auto
  from star_numbering_last_part[OF Nil.prems(2-5), of n' i g] obtain pre where
    "star (ms (numbering_tail nd)) (Suc n') (i, 46 # e @ r, g) = pre @ [(i, 46 # e @ r, g)]"
    "\<forall>(j, s', g') \<in> set pre. dead s'" by blast
  then show ?case unfolding n by (intro exI[of _ pre] exI[of _ "[]"] exI[of _ g]) simp
next
  case (Cons seg segs)
  let ?rest = "dotted segs @ 46 # e @ r"
  from Cons.prems(6) obtain n' where n: "n = Suc n'" and le: "length ?rest \<le> n'"
    by (cases n) auto
  from Cons.prems(1) have seg: "seg \<noteq> []" "list_all (isdecimal nd) seg"
    and segs: "\<forall>d \<in> set segs. d \<noteq> [] \<and> list_all (isdecimal nd) d" by auto
  have hd: "?rest = [] \<or> \<not> isdecimal nd (hd ?rest)"
    by (cases segs) auto
  from first_numbering_tail[OF seg hd, of i g] obtain xs where
    f: "ms (numbering_tail nd) (i, 46 # seg @ ?rest, g) =
          (Suc i + length seg, ?rest, g(2 \<mapsto> 46 # seg)) # xs"
    unfolding first_result_def by blast
  from Cons.IH[OF segs Cons.prems(2-5) le, of "Suc i + length seg" "g(2 \<mapsto> 46 # seg)"]
  obtain pre post g' where
    s: "star (ms (numbering_tail nd)) n' (Suc i + length seg, ?rest, g(2 \<mapsto> 46 # seg)) =
          pre @ (Suc i + length seg + length (dotted segs), 46 # e @ r, g') # post"
    and d: "\<forall>(j, s', g'') \<in> set pre. dead s'" by blast
  have "star (ms (numbering_tail nd)) (Suc n') (i, 46 # seg @ ?rest, g) =
          pre @ (Suc i + length seg + length (dotted segs), 46 # e @ r, g') #
          (post @ concat (map (\<lambda>st'. if i < fst st' then star (ms (numbering_tail nd)) n' st' else []) xs)
             @ [(i, 46 # seg @ ?rest, g)])"
    using f s by simp
  then show ?case using d unfolding n
    by (intro exI[of _ pre] exI[of _ g'] exI) (simp del: star.simps)
qed

lemma SECTION_REGEX_parts:
  "SECTION_REGEX nd =
     Seq Bol
      (Seq (Group 1 (Seq (Plus (Class (isdecimal nd))) (Star (numbering_tail nd))))
           heading_tail)"
  by (simp add: SECTION_REGEX_def numbering_tail_def heading_tail_def)

lemma ms_bol_seq: "ms (Seq Bol r) (0, s, g) = ms r (0, s, g)"
  by simp

lemma concat_map_dead:
  "\<forall>(j, s', g') \<in> set pre. dead s' \<Longrightarrow> concat (map (ms heading_tail) pre) = []"
  by (induction pre) (auto simp: heading_tail_dead)

lemma first_heading_tail:
  assumes "label \<noteq> []" and "\<not> isspace (hd label)" and "10 \<notin> set label"
    and "list_all isspace ws"
  shows "first_result heading_tail (j, 46 # ws @ label, g)
           (Suc j + length ws + length label, [], g(3 \<mapsto> label))"
proof -
  have 4: "first_result (Chr 46) (j, 46 # ws @ label, g) (Suc j, ws @ label, g)"
    by (rule first_chr)
  have 5: "first_result (Star (Class isspace)) (Suc j, ws @ label, g)
             (Suc j + length ws, label, g)"
    using assms(4,2) by (intro first_star_class) auto
  have nl: "list_all (\<lambda>c. c \<noteq> 10) label" using assms(3) by (auto simp: list_all_iff)
  have "first_result (Plus (Class (\<lambda>c. c \<noteq> 10))) (Suc j + length ws, label @ [], g)
             (Suc j + length ws + length label, [], g)"
    using assms(1) nl by (intro first_plus_class) auto
  from first_group[OF this, of 3]
  have 6: "first_result (Group 3 (Plus (Class (\<lambda>c. c \<noteq> 10)))) (Suc j + length ws, label, g)
             (Suc j + length ws + length label, [], g(3 \<mapsto> label))"
    by simp
  show ?thesis
    unfolding heading_tail_def by (intro first_seq[OF 4] first_seq[OF 5] 6)
qed

lemma heading_match_number_label:
  assumes ds: "ds \<noteq> []" "\<forall>d \<in> set ds. d \<noteq> [] \<and> list_all (isdecimal nd) d"
    and e: "e \<noteq> []" "list_all (isdecimal nd) e" "r = [] \<or> \<not> isdecimal nd (hd r)"
    and r: "dead r"
    and label: "\<not> isspace (hd (e @ r))" "10 \<notin> set (e @ r)"
  shows "\<exists>m. re_match (SECTION_REGEX nd) (join [46] ds @ 46 # e @ r) = Some m \<and>
             m 1 = Some (join [46] ds) \<and> m 3 = Some (e @ r)"
proof -
  from ds(1) obtain d segs where dsc: "ds = d # segs" by (cases ds) auto
  with ds(2) have d: "d \<noteq> []" "list_all (isdecimal nd) d"
    and segs: "\<forall>d \<in> set segs. d \<noteq> [] \<and> list_all (isdecimal nd) d" by auto
  define num where "num = d @ dotted segs"
  define p where "p = num @ 46 # e @ r"
  let ?rest = "dotted segs @ 46 # e @ r"
  have num: "join [46] ds = num" by (simp add: dsc join_dotted num_def)
  have p: "p = d @ ?rest" by (simp add: p_def num_def)
  have hd: "?rest = [] \<or> \<not> isdecimal nd (hd ?rest)" by (cases segs) auto
  from first_plus_class[OF d hd, of 0 Map.empty] obtain o1 where
    1: "ms (Plus (Class (isdecimal nd))) (0, p, Map.empty) = (length d, ?rest, Map.empty) # o1"
    unfolding first_result_def p by auto
  from star_numbering_prefix[OF segs e r le_refl, of "length d" Map.empty]
  obtain pre post g' where
    2: "ms (Star (numbering_tail nd)) (length d, ?rest, Map.empty) =
          pre @ (length d + length (dotted segs), 46 # e @ r, g') # post"
    and dd: "\<forall>(j, s', g'') \<in> set pre. dead s'" by auto
  let ?cap = "\<lambda>(j, s', g'). (j, s', g'(1 \<mapsto> take (j - 0) p))"
  let ?G1 = "Group 1 (Seq (Plus (Class (isdecimal nd))) (Star (numbering_tail nd)))"
  have "ms (Seq (Plus (Class (isdecimal nd))) (Star (numbering_tail nd))) (0, p, Map.empty) =
          pre @ (length num, 46 # e @ r, g') #
          (post @ concat (map (ms (Star (numbering_tail nd))) o1))"
    using 1 2 by (simp add: num_def del: ms.simps(4))
  then have 3: "ms ?G1 (0, p, Map.empty) =
      map ?cap pre @ (length num, 46 # e @ r, g'(1 \<mapsto> num)) #
        map ?cap (post @ concat (map (ms (Star (numbering_tail nd))) o1))"
    by (simp add: p_def del: ms.simps(3,4))
  have dc: "\<forall>(j, s', g'') \<in> set (map ?cap pre). dead s'" using dd by auto
  from first_heading_tail[of "e @ r" "[]" "length num" "g'(1 \<mapsto> num)"] e(1) label
  obtain ys where
    4: "ms heading_tail (length num, 46 # e @ r, g'(1 \<mapsto> num)) =
          (Suc (length num) + length (e @ r), [], g'(1 \<mapsto> num, 3 \<mapsto> e @ r)) # ys"
    unfolding first_result_def by auto
  have "ms (Seq ?G1 heading_tail) (0, p, Map.empty) =
          concat (map (ms heading_tail) (map ?cap pre)) @
          ms heading_tail (length num, 46 # e @ r, g'(1 \<mapsto> num)) @
          concat (map (ms heading_tail)
            (map ?cap (post @ concat (map (ms (Star (numbering_tail nd))) o1))))"
    unfolding ms.simps(3) 3 by simp
  also have "concat (map (ms heading_tail) (map ?cap pre)) = []"
    using dc by (rule concat_map_dead)
  finally have "\<exists>zs. ms (Seq ?G1 heading_tail) (0, p, Map.empty) =
      (Suc (length num) + length (e @ r), [], g'(1 \<mapsto> num, 3 \<mapsto> e @ r)) # zs"
    unfolding 4 by simp
  then have "\<exists>zs. ms (SECTION_REGEX nd) (0, p, Map.empty) =
      (Suc (length num) + length (e @ r), [], g'(1 \<mapsto> num, 3 \<mapsto> e @ r)) # zs"
    unfolding SECTION_REGEX_parts ms_bol_seq .
  then have "re_match (SECTION_REGEX nd) p = Some (g'(1 \<mapsto> num, 3 \<mapsto> e @ r))"
    by (auto simp: re_match_def)
  then show ?thesis by (simp add: num p_def)
qed

lemma not_continues_cases:
  assumes "\<not> continues_numbering nd t" and "t \<noteq> []" and "isdecimal nd (hd t)"
  shows "\<exists>e r. t = e @ r \<and> e \<noteq> [] \<and> list_all (isdecimal nd) e \<and>
           (r = [] \<or> \<not> isdecimal nd (hd r)) \<and> dead r"
proof -
  let ?e = "takeWhile (isdecimal nd) t" and ?r = "dropWhile (isdecimal nd) t"
  have e: "?e \<noteq> []" using assms(2,3) by (cases t) auto
  have 1: "t = ?e @ ?r" by simp
  have 2: "list_all (isdecimal nd) ?e" by (auto simp: list_all_iff dest: set_takeWhileD)
  have 3: "?r = [] \<or> \<not> isdecimal nd (hd ?r)" using hd_dropWhile by blast
  have "\<not> (case ?r of c # c' # cs \<Rightarrow> c = 46 | _ \<Rightarrow> False)"
    using assms(1) e by (simp add: continues_numbering_def)
  then have 4: "dead ?r"
    by (auto simp: dead_def split: list.splits)
  from 1 e 2 3 4 show ?thesis by blast
qed

lemma heading_match_general:
  assumes ds: "ds \<noteq> []" "\<forall>d \<in> set ds. d \<noteq> [] \<and> list_all (isdecimal nd) d"
    and ws: "list_all isspace ws"
    and label: "label \<noteq> []" "\<not> isspace (hd label)" "10 \<notin> set label"
    and nc: "\<not> continues_numbering nd (ws @ label)"
  shows "\<exists>m. re_match (SECTION_REGEX nd) (join [46] ds @ 46 # ws @ label) = Some m \<and>
             m 1 = Some (join [46] ds) \<and> m 3 = Some label"
proof (cases "isdecimal nd (hd (ws @ label))")
  case False
  with ds ws label show ?thesis by (intro heading_match)
next
  case True
  have w: "ws = []"
  proof (rule ccontr)
    assume "ws \<noteq> []"
    then have "isspace (hd (ws @ label))" using ws by (cases ws) auto
    with True show False by (simp add: space_not_decimal)
  qed
  from not_continues_cases[OF nc _ True] label(1) obtain e r where
    er: "label = e @ r" "e \<noteq> []" "list_all (isdecimal nd) e"
      "r = [] \<or> \<not> isdecimal nd (hd r)" "dead r"
    by (auto simp: w)
  from heading_match_number_label[OF ds er(2-5)] label(2,3)
  show ?thesis by (simp add: w er(1))
qed

section \<open>The sectioner\<close>

lemma detect_loop_step:
  "detect_loop nd cur res (p # ps) =
     (if is_heading nd p then detect_loop nd (heading_label nd p) res ps
      else detect_loop nd cur (res @ [(cur, p)]) ps)"
proof (cases "re_match (SECTION_REGEX nd) p")
  case None
  then show ?thesis by (simp add: is_heading_def)
next
  case (Some m)
  have "detect_loop nd cur res (p # ps) =
          detect_loop nd (match_group m 1 @ lit '' '' @ match_group m 3) res ps"
    using Some by (simp del: lit_simps)
  moreover have "is_heading nd p" using Some by (simp add: is_heading_def)
  moreover have "heading_label nd p = match_group m 1 @ lit '' '' @ match_group m 3"
    using Some by (simp add: heading_label_def del: lit_simps)
  ultimately show ?thesis by (simp del: lit_simps)
qed

declare detect_loop.simps(2) [simp del]

lemma detect_loop_acc: "detect_loop nd cur res ps = res @ detect_loop nd cur [] ps"
proof (induction ps arbitrary: cur res)
  case Nil
  show ?case by simp
next
  case (Cons p ps)
  show ?case
  proof (cases "is_heading nd p")
    case True
    then show ?thesis
      using Cons.IH[of "heading_label nd p" res] Cons.IH[of "heading_label nd p" "[]"]
      by (simp add: detect_loop_step)
  next
    case False
    have "detect_loop nd cur (res @ [(cur, p)]) ps = res @ (cur, p) # detect_loop nd cur [] ps"
      using Cons.IH[of cur "res @ [(cur, p)]"] by simp
    moreover have "detect_loop nd cur ([] @ [(cur, p)]) ps = (cur, p) # detect_loop nd cur [] ps"
      using Cons.IH[of cur "[(cur, p)]"] by simp
    ultimately show ?thesis unfolding detect_loop_step using False by simp
  qed
qed

lemma section_after_Cons:
  "section_after nd cur (p # ps) =
     section_after nd (if is_heading nd p then heading_label nd p else cur) ps"
  by (simp add: section_after_def split: list.splits)

lemma detect_loop_append:
  "detect_loop nd cur [] (ps @ qs) =
     detect_loop nd cur [] ps @ detect_loop nd (section_after nd cur ps) [] qs"
proof (induction ps arbitrary: cur)
  case Nil
  show ?case by (simp add: section_after_def)
next
  case (Cons p ps)
  show ?case
  proof (cases "is_heading nd p")
    case True
    then show ?thesis
      using Cons.IH[of "heading_label nd p"]
      by (simp add: detect_loop_step section_after_Cons)
  next
    case False
    have "detect_loop nd cur [(cur, p)] (ps @ qs) = (cur, p) # detect_loop nd cur [] (ps @ qs)"
      using detect_loop_acc[of nd cur "[(cur, p)]"] by simp
    moreover have "detect_loop nd cur [(cur, p)] ps = (cur, p) # detect_loop nd cur [] ps"
      using detect_loop_acc[of nd cur "[(cur, p)]"] by simp
    ultimately show ?thesis
      using False Cons.IH[of cur] by (simp add: detect_loop_step section_after_Cons)
  qed
qed

lemma detect_loop_sentences:
  "\<forall>p \<in> set qs. \<not> is_heading nd p \<Longrightarrow> detect_loop nd cur [] qs = map (\<lambda>p. (cur, p)) qs"
proof (induction qs)
  case Nil
  show ?case by simp
next
  case (Cons q qs)
  then have "detect_loop nd cur [(cur, q)] qs = (cur, q) # map (\<lambda>p. (cur, p)) qs"
    using detect_loop_acc[of nd cur "[(cur, q)]" qs] by simp
  then show ?case using Cons.prems by (simp add: detect_loop_step)
qed

lemma detect_loop_indexed:
  "detect_loop nd cur [] ps =
     map (\<lambda>i. (section_after nd cur (take i ps), ps ! i))
       (filter (\<lambda>i. \<not> is_heading nd (ps ! i)) [0..<length ps])"
proof (induction ps rule: rev_induct)
  case Nil
  show ?case by simp
next
  case (snoc p ps)
  let ?F = "\<lambda>i. (section_after nd cur (take i (ps @ [p])), (ps @ [p]) ! i)"
  let ?Q = "\<lambda>i. \<not> is_heading nd ((ps @ [p]) ! i)"
  have a: "filter ?Q [0..<length ps] =
           filter (\<lambda>i. \<not> is_heading nd (ps ! i)) [0..<length ps]"
    by (rule filter_cong) (simp_all add: nth_append)
  have b: "map ?F (filter (\<lambda>i. \<not> is_heading nd (ps ! i)) [0..<length ps]) =
           map (\<lambda>i. (section_after nd cur (take i ps), ps ! i))
             (filter (\<lambda>i. \<not> is_heading nd (ps ! i)) [0..<length ps])"
    by (rule map_cong) (simp_all add: nth_append)
  have c: "detect_loop nd (section_after nd cur ps) [] [p] =
           (if is_heading nd p then [] else [(section_after nd cur ps, p)])"
    by (simp add: detect_loop_step)
  have "map ?F (filter ?Q [0..<length (ps @ [p])]) =
          map ?F (filter ?Q [0..<length ps]) @
          (if is_heading nd p then [] else [(section_after nd cur ps, p)])"
    by simp
  also have "map ?F (filter ?Q [0..<length ps]) =
      map (\<lambda>i. (section_after nd cur (take i ps), ps ! i))
             (filter (\<lambda>i. \<not> is_heading nd (ps ! i)) [0..<length ps])"
    unfolding a b ..
  finally show ?case
    unfolding detect_loop_append c snoc.IH by simp
qed

lemma heading_resets:
  assumes "is_heading nd h" and "\<forall>p \<in> set later. \<not> is_heading nd p"
  shows "detect_sections nd (before @ [h] @ later) =
           detect_sections nd before @ map (\<lambda>p. (heading_label nd h, p)) later"
proof -
  have "detect_loop nd cur [] (h # later) = map (\<lambda>p. (heading_label nd h, p)) later" for cur
    using assms(1) detect_loop_sentences[OF assms(2)] by (simp add: detect_loop_step)
  then show ?thesis
    by (simp add: detect_sections_def detect_loop_append del: lit_simps)
qed

text \<open>
  Claim C3. The sectioner returns exactly the paragraphs that are not headings, each
  once and in their original order, each paired with the label of the last heading before
  it, or with \<^verbatim>\<open>General\<close> when no heading comes before it; a heading never appears as a
  sentence.
\<close>

theorem sectioner_covers_sentences:
  "detect_sections nd ps =
     map (\<lambda>i. (governing_label nd ps i, ps ! i))
       (filter (\<lambda>i. \<not> is_heading nd (ps ! i)) [0..<length ps]) \<and>
   map snd (detect_sections nd ps) = filter (\<lambda>p. \<not> is_heading nd p) ps"
proof -
  have g: "governing_label nd ps i = section_after nd (lit ''General'') (take i ps)" for i
    by (simp add: governing_label_def section_after_def del: lit_simps)
  have 1: "detect_sections nd ps =
     map (\<lambda>i. (governing_label nd ps i, ps ! i))
       (filter (\<lambda>i. \<not> is_heading nd (ps ! i)) [0..<length ps])"
    unfolding detect_sections_def detect_loop_indexed g ..
  have "map snd (detect_sections nd ps) =
          map (\<lambda>i. ps ! i) (filter (\<lambda>i. \<not> is_heading nd (ps ! i)) [0..<length ps])"
    unfolding 1 by (simp add: comp_def)
  also have "\<dots> = filter (\<lambda>p. \<not> is_heading nd p) (map (\<lambda>i. ps ! i) [0..<length ps])"
    by (simp add: filter_map comp_def)
  also have "\<dots> = filter (\<lambda>p. \<not> is_heading nd p) ps"
    by (simp add: map_nth)
  finally show ?thesis using 1 by blast
qed

theorem sectioner_covers_sentences_witness:
  "detect_sections (\<lambda>c. False) [lit ''Introduccio'', lit ''3.1. Enzims'', lit ''Text''] =
     [(lit ''General'', lit ''Introduccio''), (lit ''3.1 Enzims'', lit ''Text'')]"
proof -
  have a: "re_match (SECTION_REGEX (\<lambda>c. False)) (lit ''Introduccio'') = None"
    by (simp add: re_match_def SECTION_REGEX_def Plus_def Chr_def isdecimal_def isspace_def)
  have b: "re_match (SECTION_REGEX (\<lambda>c. False)) (lit ''Text'') = None"
    by (simp add: re_match_def SECTION_REGEX_def Plus_def Chr_def isdecimal_def isspace_def)
  have c: "re_match (SECTION_REGEX (\<lambda>c. False)) (lit ''3.1. Enzims'') =
      Some [2 \<mapsto> lit ''.1'', 1 \<mapsto> lit ''3.1'', 3 \<mapsto> lit ''Enzims'']"
    by (simp add: re_match_def SECTION_REGEX_def Plus_def Chr_def isdecimal_def isspace_def)
  show ?thesis
    using sectioner_covers_sentences[of "\<lambda>c. False"
        "[lit ''Introduccio'', lit ''3.1. Enzims'', lit ''Text'']"]
    by (simp add: governing_label_def is_heading_def heading_label_def a b c match_group_def
        del: lit_simps) simp
qed

text \<open>
  Claim C4. A paragraph made of one or more integers separated by dots, a period and
  a label (the numbering ends at that period: what follows it does not go on with the
  numbering; the label is the text of that line after the white space) matches the
  heading pattern, gives no sentence, and makes the numbering, one space and the label
  the section of the sentences after it, up to the next heading. The paragraph
  \<^verbatim>\<open>3.1. Enzims\<close> gives the section \<^verbatim>\<open>3.1 Enzims\<close>.
\<close>

theorem numbered_heading_sets_section:
  assumes "ds \<noteq> []" and "\<forall>d \<in> set ds. d \<noteq> [] \<and> list_all (isdecimal nd) d"
    and "list_all isspace ws"
    and "label \<noteq> []" and "\<not> isspace (hd label)" and "10 \<notin> set label"
    and "\<not> continues_numbering nd (ws @ label)"
    and "\<forall>p \<in> set later. re_match (SECTION_REGEX nd) p = None"
  shows "re_match (SECTION_REGEX nd) (join (lit ''.'') ds @ lit ''.'' @ ws @ label) \<noteq> None \<and>
         detect_sections nd (before @ [join (lit ''.'') ds @ lit ''.'' @ ws @ label] @ later) =
           detect_sections nd before @
           map (\<lambda>p. (join (lit ''.'') ds @ lit '' '' @ label, p)) later"
proof -
  let ?h = "join [46] ds @ 46 # ws @ label"
  from heading_match_general[OF assms(1-7)] obtain m where
    m: "re_match (SECTION_REGEX nd) ?h = Some m" "m 1 = Some (join [46] ds)" "m 3 = Some label"
    by blast
  have h: "is_heading nd ?h" by (simp add: is_heading_def m(1))
  have l: "heading_label nd ?h = join [46] ds @ 32 # label"
    using m by (simp add: heading_label_def match_group_def)
  have n: "\<forall>p \<in> set later. \<not> is_heading nd p" using assms(8) by (simp add: is_heading_def)
  have "detect_loop nd cur [] (?h # later) =
          map (\<lambda>p. (join [46] ds @ 32 # label, p)) later" for cur
    using h l detect_loop_sentences[OF n] by (simp add: detect_loop_step)
  then have "detect_sections nd (before @ ?h # later) =
      detect_sections nd before @ map (\<lambda>p. (join [46] ds @ 32 # label, p)) later"
    by (simp add: detect_sections_def detect_loop_append del: lit_simps)
  then show ?thesis using m(1) by simp
qed

theorem numbered_heading_sets_section_witness:
  "detect_sections (\<lambda>c. False) [lit ''3.1. Enzims'', lit ''Catalitzen'', lit ''Text''] =
     [(lit ''3.1 Enzims'', lit ''Catalitzen''), (lit ''3.1 Enzims'', lit ''Text'')]"
proof -
  have a: "re_match (SECTION_REGEX (\<lambda>c. False)) (lit ''Catalitzen'') = None"
    by (simp add: re_match_def SECTION_REGEX_def Plus_def Chr_def isdecimal_def isspace_def)
  have b: "re_match (SECTION_REGEX (\<lambda>c. False)) (lit ''Text'') = None"
    by (simp add: re_match_def SECTION_REGEX_def Plus_def Chr_def isdecimal_def isspace_def)
  have l: "\<forall>p \<in> set [lit ''Catalitzen'', lit ''Text'']. re_match (SECTION_REGEX (\<lambda>c. False)) p = None"
    using a b by (simp del: lit_simps)
  have ds: "[lit ''3'', lit ''1''] \<noteq> []"
    "\<forall>d \<in> set [lit ''3'', lit ''1'']. d \<noteq> [] \<and> list_all (isdecimal (\<lambda>c. False)) d"
    by (simp_all add: isdecimal_def)
  have ws: "list_all isspace (lit '' '')" by (simp add: isspace_def)
  have lb: "lit ''Enzims'' \<noteq> []" "\<not> isspace (hd (lit ''Enzims''))" "10 \<notin> set (lit ''Enzims'')"
    "\<not> continues_numbering (\<lambda>c. False) (lit '' '' @ lit ''Enzims'')"
    by (simp_all add: isspace_def isdecimal_def continues_numbering_def)
  from numbered_heading_sets_section[OF ds ws lb l, of "[]"]
  show ?thesis by (simp add: detect_sections_def)
qed

text \<open>
  Claim C7. The measurement \<^verbatim>\<open>3.5 kg de mostra\<close> matches the heading pattern: the
  sectioner gives no pair for it and the sentences after it get the section
  \<^verbatim>\<open>3 5 kg de mostra\<close>. So does every paragraph that starts with a number and a period
  and goes on with text of its line: it gives no pair and sets the section of the
  sentences after it.
\<close>

theorem measurement_is_heading:
  assumes "\<forall>p \<in> set later. re_match (SECTION_REGEX nd) p = None"
  shows "re_match (SECTION_REGEX nd) (lit ''3.5 kg de mostra'') \<noteq> None \<and>
         detect_sections nd (before @ [lit ''3.5 kg de mostra''] @ later) =
           detect_sections nd before @ map (\<lambda>p. (lit ''3 5 kg de mostra'', p)) later \<and>
         (d \<noteq> [] \<and> list_all (isdecimal nd) d \<and> (\<exists>c \<in> set t. c \<noteq> 10) \<longrightarrow>
            re_match (SECTION_REGEX nd) (d @ lit ''.'' @ t) \<noteq> None \<and>
            (\<exists>label. detect_sections nd (before @ [d @ lit ''.'' @ t] @ later) =
               detect_sections nd before @ map (\<lambda>p. (label, p)) later))"
proof -
  let ?h = "lit ''3.5 kg de mostra''"
  have n: "\<forall>p \<in> set later. \<not> is_heading nd p" using assms by (simp add: is_heading_def)
  have m: "re_match (SECTION_REGEX nd) ?h =
      Some [1 \<mapsto> lit ''3'', 3 \<mapsto> lit ''5 kg de mostra'']"
    by (simp add: re_match_def SECTION_REGEX_def Plus_def Chr_def isdecimal_def isspace_def)
  have h: "is_heading nd ?h" by (simp add: is_heading_def m del: lit_simps)
  have l: "heading_label nd ?h = lit ''3 5 kg de mostra''"
    by (simp add: heading_label_def m match_group_def del: lit_simps) simp
  have 1: "detect_sections nd (before @ [?h] @ later) =
      detect_sections nd before @ map (\<lambda>p. (lit ''3 5 kg de mostra'', p)) later"
    using heading_resets[OF h n, of before] unfolding l .
  have 2: "re_match (SECTION_REGEX nd) (d @ lit ''.'' @ t) \<noteq> None \<and>
            (\<exists>label. detect_sections nd (before @ [d @ lit ''.'' @ t] @ later) =
               detect_sections nd before @ map (\<lambda>p. (label, p)) later)"
    if "d \<noteq> []" "list_all (isdecimal nd) d" "\<exists>c \<in> set t. c \<noteq> 10"
  proof -
    from number_period_matches[OF that]
    have a: "re_match (SECTION_REGEX nd) (d @ lit ''.'' @ t) \<noteq> None" by simp
    then have "is_heading nd (d @ lit ''.'' @ t)" by (simp add: is_heading_def)
    from heading_resets[OF this n, of before] a show ?thesis by blast
  qed
  from m 1 2 show ?thesis by (simp del: lit_simps)
qed

theorem measurement_is_heading_witness:
  "detect_sections (\<lambda>c. False) [lit ''Abans'', lit ''3.5 kg de mostra'', lit ''Text''] =
     [(lit ''General'', lit ''Abans''), (lit ''3 5 kg de mostra'', lit ''Text'')] \<and>
   re_match (SECTION_REGEX (\<lambda>c. False)) (lit ''12.'' @ lit ''5 g'') \<noteq> None"
proof -
  have a: "re_match (SECTION_REGEX (\<lambda>c. False)) (lit ''Abans'') = None"
    by (simp add: re_match_def SECTION_REGEX_def Plus_def Chr_def isdecimal_def isspace_def)
  have b: "re_match (SECTION_REGEX (\<lambda>c. False)) (lit ''Text'') = None"
    by (simp add: re_match_def SECTION_REGEX_def Plus_def Chr_def isdecimal_def isspace_def)
  have l: "\<forall>p \<in> set [lit ''Text'']. re_match (SECTION_REGEX (\<lambda>c. False)) p = None"
    using b by (simp del: lit_simps)
  have s: "detect_sections (\<lambda>c. False) [lit ''Abans''] = [(lit ''General'', lit ''Abans'')]"
    using a by (simp add: detect_sections_def detect_loop.simps del: lit_simps)
  have d: "lit ''12'' \<noteq> [] \<and> list_all (isdecimal (\<lambda>c. False)) (lit ''12'') \<and>
           (\<exists>c \<in> set (lit ''5 g''). c \<noteq> 10)"
    by (simp add: isdecimal_def)
  from measurement_is_heading[OF l, where before = "[lit ''Abans'']" and d = "lit ''12''"
      and t = "lit ''5 g''"] d
  have "detect_sections (\<lambda>c. False) ([lit ''Abans''] @ [lit ''3.5 kg de mostra''] @ [lit ''Text'']) =
          detect_sections (\<lambda>c. False) [lit ''Abans''] @
          map (\<lambda>p. (lit ''3 5 kg de mostra'', p)) [lit ''Text'']"
    and "re_match (SECTION_REGEX (\<lambda>c. False)) (lit ''12'' @ lit ''.'' @ lit ''5 g'') \<noteq> None"
    by blast+
  then show ?thesis unfolding s by (simp del: lit_simps) simp
qed

section \<open>The writer and the reader\<close>

text \<open>
  What the UTF-8 encoder writes, the decoder reads back.
\<close>

lemma utf8_char_None: "utf8_char c = None \<longleftrightarrow> \<not> encodable c"
  by (auto simp: utf8_char_def encodable_def)

lemma decode1:
  assumes "c < 0x80"
  shows "utf8_decode ([c] @ rest) = map_option ((#) c) (utf8_decode rest)"
  using assms by simp

lemma digits64:
  fixes c :: nat
  obtains q1 r1 q2 r2 q3 r3 where
    "c = q1 * 64 + r1" "r1 < 64" "q1 = q2 * 64 + r2" "r2 < 64" "q2 = q3 * 64 + r3" "r3 < 64"
    "c mod 64 = r1" "c div 64 = q1" "q1 mod 64 = r2" "c div 4096 = q2"
    "q2 mod 64 = r3" "c div 262144 = q3"
proof -
  have a: "c div 4096 = c div 64 div 64" by (simp add: div_mult2_eq[symmetric])
  have b: "c div 262144 = c div 64 div 64 div 64" by (simp add: div_mult2_eq[symmetric])
  show ?thesis
    by (rule that[of "c div 64" "c mod 64" "c div 64 div 64" "c div 64 mod 64"
          "c div 64 div 64 div 64" "c div 64 div 64 mod 64"]) (simp_all add: a b)
qed

lemma decode2:
  assumes "0x80 \<le> c" "c < 0x800"
  shows "utf8_decode ([0xC0 + c div 64, 0x80 + c mod 64] @ rest) =
           map_option ((#) c) (utf8_decode rest)"
proof -
  obtain q1 r1 q2 r2 q3 r3 where
    d: "c = q1 * 64 + r1" "r1 < 64" "q1 = q2 * 64 + r2" "r2 < 64" "q2 = q3 * 64 + r3" "r3 < 64"
    and e: "c mod 64 = r1" "c div 64 = q1" "q1 mod 64 = r2" "c div 4096 = q2"
      "q2 mod 64 = r3" "c div 262144 = q3" by (rule digits64)
  have a: "\<not> 0xC0 + q1 < 0x80" by simp
  have b: "0xC2 \<le> 0xC0 + q1 \<and> 0xC0 + q1 \<le> 0xDF" using assms d by linarith
  have c: "cont (0x80 + r1)" unfolding cont_def using d by linarith
  have f: "(0xC0 + q1 - 0xC0) * 64 + (0x80 + r1 - 0x80) = c" using d by simp
  show ?thesis
    unfolding e append_Cons append_Nil utf8_decode.simps(2) if_not_P[OF a] if_P[OF b]
      list.case if_P[OF c] f ..
qed

lemma decode3:
  assumes "0x800 \<le> c" "c < 0x10000" "\<not> (0xD800 \<le> c \<and> c \<le> 0xDFFF)"
  shows "utf8_decode ([0xE0 + c div 4096, 0x80 + c div 64 mod 64, 0x80 + c mod 64] @ rest) =
           map_option ((#) c) (utf8_decode rest)"
proof -
  obtain q1 r1 q2 r2 q3 r3 where
    d: "c = q1 * 64 + r1" "r1 < 64" "q1 = q2 * 64 + r2" "r2 < 64" "q2 = q3 * 64 + r3" "r3 < 64"
    and e: "c mod 64 = r1" "c div 64 = q1" "q1 mod 64 = r2" "c div 4096 = q2"
      "q2 mod 64 = r3" "c div 262144 = q3" by (rule digits64)
  let ?b = "0xE0 + q2" and ?b1 = "0x80 + r2" and ?b2 = "0x80 + r1"
  have a: "\<not> ?b < 0x80" by simp
  have a2: "\<not> (0xC2 \<le> ?b \<and> ?b \<le> 0xDF)" by simp
  have b: "0xE0 \<le> ?b \<and> ?b \<le> 0xEF" using assms d by linarith
  have c1: "cont ?b1" "cont ?b2" unfolding cont_def using d by linarith+
  have c2: "?b = 0xE0 \<longrightarrow> 0xA0 \<le> ?b1" using assms d by linarith
  have c3: "?b = 0xED \<longrightarrow> ?b1 \<le> 0x9F" using assms d by linarith
  have c: "cont ?b1 \<and> cont ?b2 \<and> (?b = 0xE0 \<longrightarrow> 0xA0 \<le> ?b1) \<and> (?b = 0xED \<longrightarrow> ?b1 \<le> 0x9F)"
    using c1 c2 c3 by blast
  have f: "(?b - 0xE0) * 4096 + (?b1 - 0x80) * 64 + (?b2 - 0x80) = c" using d by simp
  show ?thesis
    unfolding e append_Cons append_Nil utf8_decode.simps(2) if_not_P[OF a] if_not_P[OF a2]
      if_P[OF b] list.case if_P[OF c] f ..
qed

lemma decode4:
  assumes "0x10000 \<le> c" "c < 0x110000"
  shows "utf8_decode ([0xF0 + c div 262144, 0x80 + c div 4096 mod 64, 0x80 + c div 64 mod 64,
              0x80 + c mod 64] @ rest) =
           map_option ((#) c) (utf8_decode rest)"
proof -
  obtain q1 r1 q2 r2 q3 r3 where
    d: "c = q1 * 64 + r1" "r1 < 64" "q1 = q2 * 64 + r2" "r2 < 64" "q2 = q3 * 64 + r3" "r3 < 64"
    and e: "c mod 64 = r1" "c div 64 = q1" "q1 mod 64 = r2" "c div 4096 = q2"
      "q2 mod 64 = r3" "c div 262144 = q3" by (rule digits64)
  let ?b = "0xF0 + q3" and ?b1 = "0x80 + r3" and ?b2 = "0x80 + r2" and ?b3 = "0x80 + r1"
  have a: "\<not> ?b < 0x80" by simp
  have a2: "\<not> (0xC2 \<le> ?b \<and> ?b \<le> 0xDF)" by simp
  have a3: "\<not> (0xE0 \<le> ?b \<and> ?b \<le> 0xEF)" by simp
  have b: "0xF0 \<le> ?b \<and> ?b \<le> 0xF4" using assms d by linarith
  have c1: "cont ?b1" "cont ?b2" "cont ?b3" unfolding cont_def using d by linarith+
  have c2: "?b = 0xF0 \<longrightarrow> 0x90 \<le> ?b1" using assms d by linarith
  have c3: "?b = 0xF4 \<longrightarrow> ?b1 \<le> 0x8F" using assms d by linarith
  have c: "cont ?b1 \<and> cont ?b2 \<and> cont ?b3 \<and> (?b = 0xF0 \<longrightarrow> 0x90 \<le> ?b1) \<and>
           (?b = 0xF4 \<longrightarrow> ?b1 \<le> 0x8F)"
    using c1 c2 c3 by blast
  have f: "(?b - 0xF0) * 262144 + (?b1 - 0x80) * 4096 + (?b2 - 0x80) * 64 + (?b3 - 0x80) = c"
    using d by simp
  show ?thesis
    unfolding e append_Cons append_Nil utf8_decode.simps(2) if_not_P[OF a] if_not_P[OF a2]
      if_not_P[OF a3] if_P[OF b] list.case if_P[OF c] f ..
qed

lemma decode_char:
  assumes "utf8_char c = Some bs"
  shows "utf8_decode (bs @ rest) = map_option ((#) c) (utf8_decode rest)"
proof -
  consider "c < 0x80" | "0x80 \<le> c" "c < 0x800"
    | "0x800 \<le> c" "c < 0x10000" "\<not> (0xD800 \<le> c \<and> c \<le> 0xDFFF)"
    | "0x10000 \<le> c" "c < 0x110000"
    | "0xD800 \<le> c \<and> c \<le> 0xDFFF" | "0x110000 \<le> c"
    by linarith
  then show ?thesis
  proof cases
    case 1
    with assms have "bs = [c]" by (simp add: utf8_char_def)
    then show ?thesis using decode1[OF 1] by simp
  next
    case 2
    with assms have "bs = [0xC0 + c div 64, 0x80 + c mod 64]" by (simp add: utf8_char_def)
    then show ?thesis using decode2[OF 2] by simp
  next
    case 3
    with assms have "bs = [0xE0 + c div 4096, 0x80 + c div 64 mod 64, 0x80 + c mod 64]"
      by (simp add: utf8_char_def)
    then show ?thesis using decode3[OF 3] by simp
  next
    case 4
    with assms have "bs = [0xF0 + c div 262144, 0x80 + c div 4096 mod 64, 0x80 + c div 64 mod 64,
              0x80 + c mod 64]"
      by (simp add: utf8_char_def)
    then show ?thesis using decode4[OF 4] by simp
  next
    case 5
    with assms show ?thesis by (simp add: utf8_char_def)
  next
    case 6
    with assms show ?thesis by (simp add: utf8_char_def)
  qed
qed

lemma decode_encode:
  "utf8_encode s = Some bs \<Longrightarrow> utf8_decode (bs @ rest) = map_option ((@) s) (utf8_decode rest)"
proof (induction s arbitrary: bs)
  case Nil
  then show ?case by (simp add: option.map_ident)
next
  case (Cons c s)
  from Cons.prems obtain b1 b2 where c: "utf8_char c = Some b1" and s: "utf8_encode s = Some b2"
    and bs: "bs = b1 @ b2"
    by (auto split: option.splits)
  show ?case
    unfolding bs append_assoc decode_char[OF c] Cons.IH[OF s]
    by (simp add: option.map_comp comp_def)
qed

lemma utf8_encode_append:
  "utf8_encode (a @ b) =
     (case utf8_encode a of
        None \<Rightarrow> None
      | Some x \<Rightarrow> (case utf8_encode b of None \<Rightarrow> None | Some y \<Rightarrow> Some (x @ y)))"
  by (induction a) (auto split: option.splits)

lemma utf8_encode_total: "list_all encodable s \<Longrightarrow> \<exists>bs. utf8_encode s = Some bs"
proof (induction s)
  case Nil
  show ?case by simp
next
  case (Cons c s)
  then obtain bs where bs: "utf8_encode s = Some bs" by auto
  from Cons.prems have "encodable c" by simp
  then obtain b where "utf8_char c = Some b" using utf8_char_None[of c] by blast
  with bs show ?case by simp
qed

lemma utf8_encode_encodable: "utf8_encode s = Some bs \<Longrightarrow> list_all encodable s"
proof (induction s arbitrary: bs)
  case Nil
  show ?case by simp
next
  case (Cons c s)
  then show ?case
    using utf8_char_None[of c] by (auto split: option.splits)
qed

text \<open>
  The parser on the written form of a field, on the delimiter and on the line terminator,
  then on a row and on a file.
\<close>

lemma quoted_body:
  "rest \<noteq> [] \<Longrightarrow> length (acc @ f) \<le> field_limit \<Longrightarrow>
   reader_loop \<lparr>p_state = IN_QUOTED_FIELD, p_field = acc, p_fields = fs\<rparr>
       (double_quotes f @ 34 # rest) =
     reader_loop \<lparr>p_state = QUOTE_IN_QUOTED_FIELD, p_field = acc @ f, p_fields = fs\<rparr> rest"
proof (induction f arbitrary: acc)
  case Nil
  then show ?case by (simp add: process_char_def line_end_def)
next
  case (Cons c f)
  from Cons.prems(2) have l: "\<not> field_limit \<le> length acc" by simp
  from Cons.prems(2) have l2: "length ((acc @ [c]) @ f) \<le> field_limit" by simp
  note ih = Cons.IH[OF Cons.prems(1) l2]
  show ?case
  proof (cases "c = 34")
    case True
    have "reader_loop \<lparr>p_state = IN_QUOTED_FIELD, p_field = acc, p_fields = fs\<rparr>
            (34 # 34 # double_quotes f @ 34 # rest) =
          reader_loop \<lparr>p_state = IN_QUOTED_FIELD, p_field = acc @ [34], p_fields = fs\<rparr>
            (double_quotes f @ 34 # rest)"
      using l by (simp add: process_char_def line_end_def add_then_def parse_add_char_def)
    then show ?thesis using ih by (simp add: True)
  next
    case False
    have "reader_loop \<lparr>p_state = IN_QUOTED_FIELD, p_field = acc, p_fields = fs\<rparr>
            (c # double_quotes f @ 34 # rest) =
          reader_loop \<lparr>p_state = IN_QUOTED_FIELD, p_field = acc @ [c], p_fields = fs\<rparr>
            (double_quotes f @ 34 # rest)"
      using l False by (simp add: process_char_def parse_add_char_def)
    then show ?thesis using ih by (simp add: False)
  qed
qed

lemma plain_body:
  "rest \<noteq> [] \<Longrightarrow> \<not> needs_quotes f \<Longrightarrow> length (acc @ f) \<le> field_limit \<Longrightarrow>
   reader_loop \<lparr>p_state = IN_FIELD, p_field = acc, p_fields = fs\<rparr> (f @ rest) =
     reader_loop \<lparr>p_state = IN_FIELD, p_field = acc @ f, p_fields = fs\<rparr> rest"
proof (induction f arbitrary: acc)
  case Nil
  show ?case by simp
next
  case (Cons c f)
  from Cons.prems(3) have l: "\<not> field_limit \<le> length acc" by simp
  from Cons.prems(3) have l2: "length ((acc @ [c]) @ f) \<le> field_limit" by simp
  from Cons.prems(2) have c: "c \<noteq> 44" "c \<noteq> 34" "c \<noteq> 13" "c \<noteq> 10" and f: "\<not> needs_quotes f"
    by (auto simp: needs_quotes_def)
  have "reader_loop \<lparr>p_state = IN_FIELD, p_field = acc, p_fields = fs\<rparr> (c # f @ rest) =
          reader_loop \<lparr>p_state = IN_FIELD, p_field = acc @ [c], p_fields = fs\<rparr> (f @ rest)"
    using l c Cons.prems(1) by (simp add: process_char_def parse_add_char_def line_end_def)
  then show ?case using Cons.IH[OF Cons.prems(1) f l2] by simp
qed

lemma field_read:
  assumes "s0 = START_FIELD \<or> s0 = START_RECORD" and "rest \<noteq> []"
    and "length f \<le> field_limit"
  shows "reader_loop \<lparr>p_state = s0, p_field = [], p_fields = fs\<rparr> (csv_field f @ rest) =
           reader_loop (done_state s0 f fs) rest"
proof (cases "needs_quotes f")
  case True
  have "reader_loop \<lparr>p_state = s0, p_field = [], p_fields = fs\<rparr>
          (34 # double_quotes f @ 34 # rest) =
        reader_loop \<lparr>p_state = IN_QUOTED_FIELD, p_field = [], p_fields = fs\<rparr>
          (double_quotes f @ 34 # rest)"
    using assms(1) by (auto simp: process_char_def start_field_def line_end_def)
  also have "\<dots> = reader_loop \<lparr>p_state = QUOTE_IN_QUOTED_FIELD, p_field = [] @ f, p_fields = fs\<rparr> rest"
    using assms(2,3) by (intro quoted_body) simp_all
  finally show ?thesis by (simp add: csv_field_def done_state_def True)
next
  case False
  show ?thesis
  proof (cases f)
    case Nil
    then show ?thesis by (simp add: csv_field_def done_state_def needs_quotes_def)
  next
    case (Cons c f')
    from False Cons have c: "c \<noteq> 44" "c \<noteq> 34" "c \<noteq> 13" "c \<noteq> 10" and f': "\<not> needs_quotes f'"
      by (auto simp: needs_quotes_def)
    have pos: "\<not> field_limit \<le> 0" by (simp add: field_limit_def)
    have "reader_loop \<lparr>p_state = s0, p_field = [], p_fields = fs\<rparr> (c # f' @ rest) =
          reader_loop \<lparr>p_state = IN_FIELD, p_field = [c], p_fields = fs\<rparr> (f' @ rest)"
      using assms(1,2) c pos
      by (auto simp: process_char_def start_field_def line_end_def add_then_def parse_add_char_def)
    also have "\<dots> = reader_loop \<lparr>p_state = IN_FIELD, p_field = [c] @ f', p_fields = fs\<rparr> rest"
      using assms(2,3) f' by (intro plain_body) (simp_all add: Cons)
    finally show ?thesis using False by (simp add: csv_field_def done_state_def Cons)
  qed
qed

lemma delimiter_step:
  assumes "s0 = START_FIELD \<or> s0 = START_RECORD" and "rest \<noteq> []"
  shows "reader_loop (done_state s0 f fs) (44 # rest) =
           reader_loop \<lparr>p_state = START_FIELD, p_field = [], p_fields = fs @ [f]\<rparr> rest"
  using assms
  by (auto simp: done_state_def process_char_def start_field_def line_end_def
      parse_save_field_def)

lemma terminator_step:
  "reader_loop (done_state START_FIELD f fs) (13 # 10 # rest) =
     (case reader_loop parse_reset rest of
        Inl err \<Rightarrow> Inl err
      | Inr rows \<Rightarrow> Inr ((fs @ [f]) # rows))"
  by (auto simp: done_state_def process_char_def start_field_def line_end_def
      parse_save_field_def split: sum.splits)

declare reader_loop.simps(2) [simp del]

lemma join_comma: "join [44] (x # xs) = x @ concat (map ((#) 44) xs)"
  by (induction xs arbitrary: x) auto

lemma csv_line_fields:
  "gs \<noteq> [] \<Longrightarrow>
   csv_line (f # gs) = csv_field f @ concat (map (\<lambda>g. 44 # csv_field g) gs) @ [13, 10]"
  by (cases gs) (simp_all add: csv_line_def join_comma comp_def Let_def)

lemma row_tail:
  "\<forall>g \<in> set gs. length g \<le> field_limit \<Longrightarrow>
   s0 = START_FIELD \<or> (s0 = START_RECORD \<and> gs \<noteq> []) \<Longrightarrow>
   reader_loop (done_state s0 f fs)
       (concat (map (\<lambda>g. 44 # csv_field g) gs) @ 13 # 10 # rest) =
     (case reader_loop parse_reset rest of
        Inl err \<Rightarrow> Inl err
      | Inr rows \<Rightarrow> Inr ((fs @ f # gs) # rows))"
proof (induction gs arbitrary: s0 f fs)
  case Nil
  then have "s0 = START_FIELD" by simp
  then show ?case using terminator_step[of f fs rest] by simp
next
  case (Cons g gs)
  let ?more = "concat (map (\<lambda>g. 44 # csv_field g) gs) @ 13 # 10 # rest"
  from Cons.prems(2) have s0: "s0 = START_FIELD \<or> s0 = START_RECORD" by auto
  have ne: "csv_field g @ ?more \<noteq> []" "?more \<noteq> []" by simp_all
  from Cons.prems(1) have g: "length g \<le> field_limit"
    and gs: "\<forall>g \<in> set gs. length g \<le> field_limit" by auto
  have "reader_loop (done_state s0 f fs) (44 # csv_field g @ ?more) =
          reader_loop \<lparr>p_state = START_FIELD, p_field = [], p_fields = fs @ [f]\<rparr>
            (csv_field g @ ?more)"
    using s0 ne(1) by (rule delimiter_step)
  also have "\<dots> = reader_loop (done_state START_FIELD g (fs @ [f])) ?more"
    using _ ne(2) g by (rule field_read) simp
  also have "\<dots> = (case reader_loop parse_reset rest of
        Inl err \<Rightarrow> Inl err
      | Inr rows \<Rightarrow> Inr (((fs @ [f]) @ g # gs) # rows))"
    using gs by (rule Cons.IH) simp
  finally show ?case unfolding append_assoc append_Cons append_Nil by simp
qed

lemma row_read:
  assumes "2 \<le> length row" and "\<forall>f \<in> set row. length f \<le> field_limit"
  shows "reader_loop parse_reset (csv_line row @ rest) =
           (case reader_loop parse_reset rest of
              Inl err \<Rightarrow> Inl err
            | Inr rows \<Rightarrow> Inr (row # rows))"
proof -
  from assms(1) obtain f g gs' where "row = f # g # gs'"
    by (cases row; cases "tl row") auto
  then obtain f gs where row: "row = f # gs" and gs: "gs \<noteq> []" by blast
  let ?more = "concat (map (\<lambda>g. 44 # csv_field g) gs) @ 13 # 10 # rest"
  from assms(2) have f: "length f \<le> field_limit"
    and l: "\<forall>g \<in> set gs. length g \<le> field_limit" by (auto simp: row)
  have "reader_loop parse_reset (csv_line (f # gs) @ rest) =
          reader_loop \<lparr>p_state = START_RECORD, p_field = [], p_fields = []\<rparr>
            (csv_field f @ ?more)"
    by (simp add: csv_line_fields[OF gs] parse_reset_def)
  also have "\<dots> = reader_loop (done_state START_RECORD f []) ?more"
    using _ _ f by (rule field_read) simp_all
  also have "\<dots> = (case reader_loop parse_reset rest of
              Inl err \<Rightarrow> Inl err
            | Inr rows \<Rightarrow> Inr (([] @ f # gs) # rows))"
    using l by (rule row_tail) (simp add: gs)
  finally show ?thesis unfolding append_Nil row .
qed

lemma rows_read:
  "\<forall>row \<in> set rows. 2 \<le> length row \<and> (\<forall>f \<in> set row. length f \<le> field_limit) \<Longrightarrow>
   reader_loop parse_reset (concat (map csv_line rows)) = Inr rows"
proof (induction rows)
  case Nil
  show ?case by (simp add: parse_reset_def)
next
  case (Cons row rows)
  then have "reader_loop parse_reset (concat (map csv_line rows)) = Inr rows" by simp
  moreover from Cons.prems have "2 \<le> length row" "\<forall>f \<in> set row. length f \<le> field_limit"
    by simp_all
  ultimately show ?case using row_read[of row "concat (map csv_line rows)"] by simp
qed

text \<open>
  The writer succeeds on rows that can be encoded, and the file then decodes to the text
  of the rows.
\<close>

lemma set_double_quotes: "set (double_quotes f) = set f"
  by (induction f) auto

lemma set_join: "set (join sep xs) \<subseteq> set sep \<union> \<Union> (set ` set xs)"
  by (induction sep xs rule: join.induct) auto

lemma encodable_marks: "encodable 44" "encodable 34" "encodable 13" "encodable 10"
  by (simp_all add: encodable_def)

lemma csv_field_encodable: "list_all encodable f \<Longrightarrow> list_all encodable (csv_field f)"
  by (simp add: csv_field_def list_all_iff set_double_quotes encodable_marks)

lemma csv_line_encodable:
  assumes "\<forall>f \<in> set row. list_all encodable f"
  shows "list_all encodable (csv_line row)"
proof -
  have "\<forall>c \<in> set (join [44] (map csv_field row)). encodable c"
  proof
    fix c assume "c \<in> set (join [44] (map csv_field row))"
    with set_join[of "[44]" "map csv_field row"]
    have "c = 44 \<or> (\<exists>f \<in> set row. c \<in> set (csv_field f))" by auto
    then show "encodable c"
      using assms csv_field_encodable by (auto simp: list_all_iff encodable_marks)
  qed
  then show ?thesis
    by (simp add: csv_line_def Let_def list_all_iff encodable_marks)
qed

lemma write_rows_ok:
  "\<forall>row \<in> set rows. list_all encodable (csv_line row) \<Longrightarrow>
   \<exists>bs. utf8_encode (concat (map csv_line rows)) = Some bs \<and>
        write_rows out rows = (Inr (), out @ bs)"
proof (induction rows arbitrary: out)
  case Nil
  show ?case by simp
next
  case (Cons row rows)
  from Cons.prems have "list_all encodable (csv_line row)" by simp
  then obtain b where b: "utf8_encode (csv_line row) = Some b"
    using utf8_encode_total by blast
  from Cons.prems have "\<forall>row \<in> set rows. list_all encodable (csv_line row)" by simp
  from Cons.IH[OF this, of "out @ b"] obtain bs where
    bs: "utf8_encode (concat (map csv_line rows)) = Some bs"
    and w: "write_rows (out @ b) rows = (Inr (), (out @ b) @ bs)" by blast
  have "utf8_encode (concat (map csv_line (row # rows))) = Some (b @ bs)"
    by (simp add: utf8_encode_append b bs)
  moreover have "write_rows out (row # rows) = (Inr (), out @ b @ bs)"
    using b w by simp
  ultimately show ?case by blast
qed

lemma read_encoded:
  "utf8_encode s = Some bs \<Longrightarrow> read_csv bs = reader_loop parse_reset s"
  using decode_encode[of s bs "[]"] by (simp add: read_csv_def)

lemma write_then_read:
  assumes "\<forall>c \<in> set cards. \<forall>f \<in> set (card_row c). list_all encodable f"
  shows "fst (write_csv cards w) = Inr () \<and>
         read_output (snd (write_csv cards w)) =
           reader_loop parse_reset (concat (map csv_line (fieldnames # map card_row cards)))"
proof -
  have h: "\<forall>f \<in> set fieldnames. list_all encodable f"
    by (simp add: fieldnames_def encodable_def)
  have "\<forall>row \<in> set (fieldnames # map card_row cards). list_all encodable (csv_line row)"
    using assms h by (auto intro!: csv_line_encodable)
  from write_rows_ok[OF this, of "[]"] obtain bs where
    bs: "utf8_encode (concat (map csv_line (fieldnames # map card_row cards))) = Some bs"
    and w: "write_rows [] (fieldnames # map card_row cards) = (Inr (), [] @ bs)" by blast
  have "write_csv cards w = (Inr (), w\<lparr>output_file := Some bs\<rparr>)"
    unfolding write_csv_def w by simp
  then show ?thesis
    using read_encoded[OF bs] by (simp add: read_output_def)
qed

lemma fieldnames_short: "2 \<le> length fieldnames \<and> (\<forall>f \<in> set fieldnames. length f \<le> field_limit)"
  by (simp add: fieldnames_def field_limit_def)

text \<open>
  A field that needs no quotes and is longer than the field size limit stops the parser.
\<close>

lemma plain_overflow:
  "rest \<noteq> [] \<Longrightarrow> \<not> needs_quotes f \<Longrightarrow> length acc \<le> field_limit \<Longrightarrow>
   field_limit < length (acc @ f) \<Longrightarrow>
   reader_loop \<lparr>p_state = IN_FIELD, p_field = acc, p_fields = fs\<rparr> (f @ rest) = Inl CsvError"
proof (induction f arbitrary: acc)
  case Nil
  then show ?case by simp
next
  case (Cons c f)
  from Cons.prems(2) have c: "c \<noteq> 44" "c \<noteq> 34" "c \<noteq> 13" "c \<noteq> 10" and f: "\<not> needs_quotes f"
    by (auto simp: needs_quotes_def)
  show ?case
  proof (cases "field_limit \<le> length acc")
    case True
    then show ?thesis
      using c by (simp add: reader_loop.simps process_char_def parse_add_char_def)
  next
    case False
    have "reader_loop \<lparr>p_state = IN_FIELD, p_field = acc, p_fields = fs\<rparr> (c # f @ rest) =
          reader_loop \<lparr>p_state = IN_FIELD, p_field = acc @ [c], p_fields = fs\<rparr> (f @ rest)"
      using False c Cons.prems(1)
      by (simp add: reader_loop.simps process_char_def parse_add_char_def line_end_def)
    moreover have "reader_loop \<lparr>p_state = IN_FIELD, p_field = acc @ [c], p_fields = fs\<rparr> (f @ rest) =
        Inl CsvError"
      using Cons.prems(1) f _ _ by (rule Cons.IH) (use False Cons.prems(4) in simp_all)
    ultimately show ?thesis by simp
  qed
qed

lemma long_field_Cons: "long_field = 97 # replicate 131072 97"
proof -
  have "(131073::nat) = Suc 131072" by simp
  then show ?thesis unfolding long_field_def by (simp only: replicate_Suc)
qed

lemma long_field_plain: "\<not> needs_quotes (replicate n 97)"
  by (simp add: needs_quotes_def list_ex_iff)

lemma long_field_encodable: "list_all encodable long_field"
  by (simp add: long_field_def list_all_iff encodable_def)

lemma surrogate_row_fails: "utf8_encode (csv_line (card_row surrogate_card)) = None"
proof -
  have "\<not> list_all encodable (csv_line (card_row surrogate_card))"
    by (simp add: surrogate_card_def card_row_def csv_line_def csv_field_def needs_quotes_def
        encodable_def)
  then show ?thesis using utf8_encode_encodable by (cases "utf8_encode (csv_line (card_row surrogate_card))") auto
qed

lemma long_row_fails:
  "reader_loop parse_reset (csv_line (card_row long_card)) = Inl CsvError"
proof -
  let ?tail = "44 # 44 # lit ''General'' @ 44 # lit ''no'' @ [13, 10]"
  have q: "\<not> needs_quotes (lit ''cloze'')" "\<not> needs_quotes (lit ''General'')"
    "\<not> needs_quotes (lit ''no'')" "\<not> needs_quotes []" "\<not> needs_quotes long_field"
    using long_field_plain[of 131073] by (simp_all add: needs_quotes_def long_field_def)
  have l: "csv_line (card_row long_card) = csv_field (lit ''cloze'') @ 44 # long_field @ ?tail"
    using q by (simp add: long_card_def card_row_def csv_line_def csv_field_def Let_def
        del: lit_simps)
  have "reader_loop parse_reset (csv_line (card_row long_card)) =
      reader_loop (done_state START_RECORD (lit ''cloze'') []) (44 # long_field @ ?tail)"
    unfolding l parse_reset_def by (rule field_read) (simp_all add: field_limit_def)
  also have "\<dots> = reader_loop \<lparr>p_state = START_FIELD, p_field = [], p_fields = [] @ [lit ''cloze'']\<rparr>
      (long_field @ ?tail)"
    by (rule delimiter_step) simp_all
  also have "\<dots> = reader_loop \<lparr>p_state = IN_FIELD, p_field = [97], p_fields = [] @ [lit ''cloze'']\<rparr>
      (replicate 131072 97 @ ?tail)"
    unfolding long_field_Cons
    by (simp add: reader_loop.simps process_char_def start_field_def add_then_def
        parse_add_char_def line_end_def field_limit_def del: lit_simps)
  also have "\<dots> = Inl CsvError"
    by (rule plain_overflow) (simp_all add: long_field_plain field_limit_def)
  finally show ?thesis .
qed

text \<open>
  Claim C5, as amended. For every list of N cards whose fields hold no surrogate code
  point and at most 131072 characters each, writing succeeds, and reading the file back
  gives the header row \<^verbatim>\<open>type,front,back,section,approved\<close> followed by exactly the N rows
  of the cards, field for field and in the order of the cards; every code point that is
  not a surrogate, ASCII or not, comes back as it was written.
\<close>

theorem csv_round_trip:
  assumes "\<forall>c \<in> set cards. \<forall>f \<in> set (card_row c). list_all encodable f \<and> length f \<le> 131072"
  shows "fst (write_csv cards w) = Inr () \<and>
         read_output (snd (write_csv cards w)) = Inr (fieldnames # map card_row cards)"
proof -
  have e: "\<forall>c \<in> set cards. \<forall>f \<in> set (card_row c). list_all encodable f"
    using assms by blast
  have "\<forall>row \<in> set (map card_row cards). 2 \<le> length row \<and> (\<forall>f \<in> set row. length f \<le> field_limit)"
    using assms by (auto simp: field_limit_def card_row_def)
  then have "\<forall>row \<in> set (fieldnames # map card_row cards).
      2 \<le> length row \<and> (\<forall>f \<in> set row. length f \<le> field_limit)"
    using fieldnames_short by simp
  then have "reader_loop parse_reset (concat (map csv_line (fieldnames # map card_row cards))) =
      Inr (fieldnames # map card_row cards)"
    by (rule rows_read)
  with write_then_read[OF e, of w] show ?thesis by simp
qed

theorem csv_round_trip_witness:
  "fst (write_csv example_csv_cards empty_world) = Inr () \<and>
   read_output (snd (write_csv example_csv_cards empty_world)) =
     Inr (fieldnames # map card_row example_csv_cards)"
proof -
  have "\<forall>c \<in> set example_csv_cards. \<forall>f \<in> set (card_row c).
          list_all encodable f \<and> length f \<le> 131072"
    by (simp add: example_csv_cards_def card_row_def encodable_def)
  then show ?thesis by (rule csv_round_trip)
qed

text \<open>
  The claim as it is stated, for every list of cards, does not hold. A card with a lone
  surrogate cannot be encoded: the writer raises, and the file holds the header only. A
  card with a field of 131073 characters is written, but the parser refuses the field.
\<close>

theorem csv_round_trip_counterexample:
  "fst (write_csv [surrogate_card] empty_world) = Inl UnicodeEncodeError \<and>
   read_output (snd (write_csv [surrogate_card] empty_world)) = Inr (fieldnames # []) \<and>
   fst (write_csv [long_card] empty_world) = Inr () \<and>
   read_output (snd (write_csv [long_card] empty_world)) = Inl CsvError"
proof -
  have h: "list_all encodable (csv_line fieldnames)"
    by (rule csv_line_encodable) (simp add: fieldnames_def encodable_def)
  then obtain hb where hb: "utf8_encode (csv_line fieldnames) = Some hb"
    using utf8_encode_total by blast
  have w: "write_csv [surrogate_card] empty_world =
      (Inl UnicodeEncodeError, empty_world\<lparr>output_file := Some hb\<rparr>)"
    by (simp add: write_csv_def hb surrogate_row_fails)
  have "reader_loop parse_reset (concat (map csv_line (fieldnames # []))) = Inr (fieldnames # [])"
    by (rule rows_read) (use fieldnames_short in simp)
  then have r: "read_csv hb = Inr (fieldnames # [])"
    using read_encoded[OF hb] by simp
  have e: "\<forall>c \<in> set [long_card]. \<forall>f \<in> set (card_row c). list_all encodable f"
    using long_field_encodable by (simp add: long_card_def card_row_def encodable_def)
  have "reader_loop parse_reset (csv_line fieldnames @ csv_line (card_row long_card)) =
      Inl CsvError"
    using row_read[of fieldnames "csv_line (card_row long_card)"] fieldnames_short
    by (simp add: long_row_fails)
  with write_then_read[OF e, of empty_world]
  have l: "fst (write_csv [long_card] empty_world) = Inr () \<and>
   read_output (snd (write_csv [long_card] empty_world)) = Inl CsvError"
    by simp
  show ?thesis using l by (simp add: w r read_output_def)
qed

section \<open>The entry point\<close>

text \<open>
  Claim C6. A run on an existing path whose suffix, in lower case, is neither
  \<^verbatim>\<open>.pdf\<close> nor \<^verbatim>\<open>.docx\<close> ends with the error that names the two formats, and the output
  file is as it was before the run.
\<close>

theorem unsupported_format_error:
  "length argv = 2 \<Longrightarrow> path_exists e (argv ! 1) \<Longrightarrow>
   str_lower e (path_suffix e (argv ! 1)) \<noteq> lit ''.pdf'' \<Longrightarrow>
   str_lower e (path_suffix e (argv ! 1)) \<noteq> lit ''.docx'' \<Longrightarrow>
     fst (run e argv w) = Inl (ValueError (lit ''Format no suportat. Usa PDF o DOCX.'')) \<and>
     output_file (snd (run e argv w)) = output_file w"
  by (simp add: run_def main_def extract_text_def module_init_def del: lit_simps)

theorem unsupported_format_error_witness:
  "fst (run example_env [lit ''generate_cards.py'', lit ''apunts.TXT''] empty_world) =
     Inl (ValueError (lit ''Format no suportat. Usa PDF o DOCX.'')) \<and>
   output_file (snd (run example_env [lit ''generate_cards.py'', lit ''apunts.TXT''] empty_world)) = None"
proof -
  have s: "str_lower example_env (path_suffix example_env (lit ''apunts.TXT'')) = lit ''.txt''"
    by (simp add: example_env_def example_suffix_def)
  have e: "path_exists example_env ([lit ''generate_cards.py'', lit ''apunts.TXT''] ! 1)"
    by (simp add: example_env_def)
  have 1: "str_lower example_env
             (path_suffix example_env ([lit ''generate_cards.py'', lit ''apunts.TXT''] ! 1)) \<noteq> lit ''.pdf''"
    using s by simp
  have 2: "str_lower example_env
             (path_suffix example_env ([lit ''generate_cards.py'', lit ''apunts.TXT''] ! 1)) \<noteq> lit ''.docx''"
    using s by simp
  from unsupported_format_error[OF _ e 1 2, of empty_world]
  show ?thesis by (simp add: empty_world_def)
qed

text \<open>
  Claim C10. A run with one argument that names a path that does not exist ends with
  the file-not-found error, whatever the suffix of the path: the existence check comes
  before the choice of the extractor.
\<close>

theorem missing_path_not_found:
  "length argv = 2 \<Longrightarrow> \<not> path_exists e (argv ! 1) \<Longrightarrow>
     fst (run e argv w) = Inl (FileNotFoundError (argv ! 1))"
  by (simp add: run_def main_def)

theorem missing_path_not_found_witness:
  "fst (run example_env [lit ''generate_cards.py'', lit ''absent.txt''] empty_world) =
     Inl (FileNotFoundError (lit ''absent.txt'')) \<and>
   extract_text example_env (lit ''absent.txt'') =
     Inl (ValueError (lit ''Format no suportat. Usa PDF o DOCX.''))"
proof -
  have "\<not> path_exists example_env ([lit ''generate_cards.py'', lit ''absent.txt''] ! 1)"
    by (simp add: example_env_def)
  from missing_path_not_found[OF _ this, of empty_world]
  have "fst (run example_env [lit ''generate_cards.py'', lit ''absent.txt''] empty_world) =
     Inl (FileNotFoundError (lit ''absent.txt''))" by simp
  moreover have "extract_text example_env (lit ''absent.txt'') =
     Inl (ValueError (lit ''Format no suportat. Usa PDF o DOCX.''))"
    by (simp add: extract_text_def example_env_def example_suffix_def)
  ultimately show ?thesis by blast
qed

end
